theory Spec2Isabelle
  imports Main
begin

section \<open>JavaScript values used by \<open>server.js\<close>\<close>

text \<open>
  A JavaScript string is a sequence of UTF-16 code units; a code unit is modelled by its
  number. \<open>str\<close> turns an ASCII literal of the source into such a sequence.
\<close>

type_synonym code_unit = nat
type_synonym jsstring = "code_unit list"

definition str :: "string \<Rightarrow> jsstring" where
  "str s = map of_char s"

text \<open>
  The Number values the conversation handles are IEEE doubles that are \<open>NaN\<close>, an
  integer, or one of the two infinities: \<open>Num n\<close> is the double whose value is the
  integer \<open>n\<close>. Negative zero is identified with zero (the two compare equal). A field
  that has not been assigned reads as \<open>undefined\<close>, modelled by \<open>None\<close>; \<open>to_number\<close> is the
  coercion the operators \<open>>=\<close> and \<open>+\<close> apply to it.
\<close>

datatype jsnum = NaN | Num int | Infinity | Neg_infinity

definition to_number :: "jsnum option \<Rightarrow> jsnum" where
  "to_number v = (case v of None \<Rightarrow> NaN | Some n \<Rightarrow> n)"

text \<open>
  The double of a mathematical integer: the nearest one, the one with the even
  significand when two are equally near. Up to \<open>2^53\<close> every integer is a double; above,
  a double has 53 significant bits, and from \<open>2^1024 - 2^970\<close> on the nearest value is
  \<open>2^1024\<close>, which is \<open>Infinity\<close>. \<open>bits\<close> is the number of binary digits.
\<close>

fun bits :: "nat \<Rightarrow> nat" where
  "bits n = (if n = 0 then 0 else Suc (bits (n div 2)))"

declare bits.simps [simp del]

definition round_nat :: "nat \<Rightarrow> nat" where
  "round_nat a =
     (if a < 2 ^ 53 then a
      else (let e = bits a - 53; q = a div 2 ^ e; r = a mod 2 ^ e; half = 2 ^ (e - 1)
            in (if half < r \<or> (r = half \<and> odd q) then q + 1 else q) * 2 ^ e))"

definition to_double :: "int \<Rightarrow> jsnum" where
  "to_double m =
     (let a = nat \<bar>m\<bar>
      in if 2 ^ 1024 - 2 ^ 970 \<le> a then (if m < 0 then Neg_infinity else Infinity)
         else Num (if m < 0 then - int (round_nat a) else int (round_nat a)))"

text \<open>\<open>a >= b\<close>: false as soon as one side is \<open>NaN\<close>.\<close>

definition js_ge :: "jsnum option \<Rightarrow> jsnum option \<Rightarrow> bool" where
  "js_ge a b =
     (case to_number a of
        NaN \<Rightarrow> False
      | Num x \<Rightarrow>
          (case to_number b of
             NaN \<Rightarrow> False | Num y \<Rightarrow> y \<le> x | Infinity \<Rightarrow> False | Neg_infinity \<Rightarrow> True)
      | Infinity \<Rightarrow> (case to_number b of NaN \<Rightarrow> False | _ \<Rightarrow> True)
      | Neg_infinity \<Rightarrow> (case to_number b of Neg_infinity \<Rightarrow> True | _ \<Rightarrow> False))"

text \<open>\<open>a + 1\<close> on a number or \<open>undefined\<close>: the exact sum, rounded to a double.\<close>

definition js_add1 :: "jsnum option \<Rightarrow> jsnum" where
  "js_add1 a =
     (case to_number a of
        NaN \<Rightarrow> NaN
      | Num x \<Rightarrow> to_double (x + 1)
      | Infinity \<Rightarrow> Infinity
      | Neg_infinity \<Rightarrow> Neg_infinity)"

text \<open>A string is truthy when it is not empty; \<open>undefined\<close> is falsy.\<close>

definition truthy :: "jsstring option \<Rightarrow> bool" where
  "truthy t = (case t of None \<Rightarrow> False | Some s \<Rightarrow> s \<noteq> [])"

subsection \<open>Characters\<close>

text \<open>
  \<open>WhiteSpace\<close> and \<open>LineTerminator\<close> of ECMAScript: TAB, LF, VT, FF, CR, SP, NBSP,
  U+1680, U+2000 to U+200A, LS, PS, U+202F, U+205F, U+3000 and U+FEFF.
\<close>

definition is_white_space :: "code_unit \<Rightarrow> bool" where
  "is_white_space c \<longleftrightarrow>
     c = 9 \<or> c = 10 \<or> c = 11 \<or> c = 12 \<or> c = 13 \<or> c = 32 \<or> c = 160 \<or> c = 5760 \<or>
     (8192 \<le> c \<and> c \<le> 8202) \<or> c = 8232 \<or> c = 8233 \<or> c = 8239 \<or> c = 8287 \<or>
     c = 12288 \<or> c = 65279"

definition is_digit :: "code_unit \<Rightarrow> bool" where
  "is_digit c \<longleftrightarrow> 48 \<le> c \<and> c \<le> 57"

text \<open>The value of a digit in a radix, if it is one: \<open>0-9\<close>, \<open>a-z\<close>, \<open>A-Z\<close>.\<close>

definition digit_value :: "nat \<Rightarrow> code_unit \<Rightarrow> nat option" where
  "digit_value r c =
     (let v = (if 48 \<le> c \<and> c \<le> 57 then Some (c - 48)
               else if 97 \<le> c \<and> c \<le> 122 then Some (c - 87)
               else if 65 \<le> c \<and> c \<le> 90 then Some (c - 55)
               else None)
      in case v of None \<Rightarrow> None | Some d \<Rightarrow> if d < r then Some d else None)"

definition is_radix_digit :: "nat \<Rightarrow> code_unit \<Rightarrow> bool" where
  "is_radix_digit r c \<longleftrightarrow> digit_value r c \<noteq> None"

definition digits_value :: "nat \<Rightarrow> jsstring \<Rightarrow> int" where
  "digits_value r z = foldl (\<lambda>a c. a * int r + int (case digit_value r c of None \<Rightarrow> 0 | Some d \<Rightarrow> d)) 0 z"

subsection \<open>\<open>parseInt(string)\<close> with no radix\<close>

text \<open>
  Leading white space is dropped, then one sign, then \<open>0x\<close> or \<open>0X\<close> selects radix 16
  (radix 10 otherwise); the longest prefix of digits of the radix is the number, and no
  digit at all gives \<open>NaN\<close>. Whatever follows the digits is ignored. The result is the
  double of the signed value of the digits, as V8 computes it (ECMAScript lets an
  implementation ignore the decimal digits after the twentieth).
\<close>

definition parseInt :: "jsstring \<Rightarrow> jsnum" where
  "parseInt input =
     (let s = dropWhile is_white_space input;
          sign = (if s \<noteq> [] \<and> hd s = 45 then - 1 else 1);
          s1 = (if s \<noteq> [] \<and> (hd s = 43 \<or> hd s = 45) then tl s else s);
          hex = (take 2 s1 = [48, 120] \<or> take 2 s1 = [48, 88]);
          r = (if hex then 16 else 10);
          s2 = (if hex then drop 2 s1 else s1);
          z = takeWhile (is_radix_digit r) s2
      in if z = [] then NaN else to_double (sign * digits_value r z))"

subsection \<open>\<open>isNaN(string)\<close>\<close>

text \<open>
  \<open>isNaN\<close> coerces its argument with \<open>Number\<close>, which gives \<open>NaN\<close> exactly when the
  string is not a \<open>StringNumericLiteral\<close>: optional white space around nothing at all
  (the value is 0), around a signed decimal literal (\<open>Infinity\<close>, or digits with an
  optional fraction and exponent), or around an unsigned \<open>0x\<close>, \<open>0o\<close> or \<open>0b\<close> literal.
\<close>

definition trim :: "jsstring \<Rightarrow> jsstring" where
  "trim s = rev (dropWhile is_white_space (rev (dropWhile is_white_space s)))"

definition is_sign :: "code_unit \<Rightarrow> bool" where
  "is_sign c \<longleftrightarrow> c = 43 \<or> c = 45"

text \<open>Nothing, or \<open>e\<close>/\<open>E\<close>, an optional sign and at least one digit.\<close>

definition exponent_opt :: "jsstring \<Rightarrow> bool" where
  "exponent_opt s =
     (case s of
        [] \<Rightarrow> True
      | c # t \<Rightarrow>
          (c = 101 \<or> c = 69) \<and>
          (let d = (if t \<noteq> [] \<and> is_sign (hd t) then tl t else t)
           in d \<noteq> [] \<and> list_all is_digit d))"

definition is_StrUnsignedDecimalLiteral :: "jsstring \<Rightarrow> bool" where
  "is_StrUnsignedDecimalLiteral s =
     (s = str ''Infinity'' \<or>
      (let ip = takeWhile is_digit s; r1 = dropWhile is_digit s
       in if r1 \<noteq> [] \<and> hd r1 = 46
          then (let fp = takeWhile is_digit (tl r1); r2 = dropWhile is_digit (tl r1)
                in (ip \<noteq> [] \<or> fp \<noteq> []) \<and> exponent_opt r2)
          else ip \<noteq> [] \<and> exponent_opt r1))"

definition is_StrDecimalLiteral :: "jsstring \<Rightarrow> bool" where
  "is_StrDecimalLiteral s =
     is_StrUnsignedDecimalLiteral (if s \<noteq> [] \<and> is_sign (hd s) then tl s else s)"

definition is_NonDecimalIntegerLiteral :: "jsstring \<Rightarrow> bool" where
  "is_NonDecimalIntegerLiteral s =
     (let p = take 2 s; d = drop 2 s
      in d \<noteq> [] \<and>
         ((p = [48, 120] \<or> p = [48, 88]) \<and> list_all (is_radix_digit 16) d \<or>
          (p = [48, 111] \<or> p = [48, 79]) \<and> list_all (is_radix_digit 8) d \<or>
          (p = [48, 98] \<or> p = [48, 66]) \<and> list_all (is_radix_digit 2) d))"

definition is_StringNumericLiteral :: "jsstring \<Rightarrow> bool" where
  "is_StringNumericLiteral s =
     (let t = trim s
      in t = [] \<or> is_StrDecimalLiteral t \<or> is_NonDecimalIntegerLiteral t)"

definition isNaN :: "jsstring \<Rightarrow> bool" where
  "isNaN s = (\<not> is_StringNumericLiteral s)"

section \<open>The data of the bot\<close>

datatype content_type = Movie | Webseries

datatype step = Title | Thumbnail | Movie_links | Episode_count | Episode_title | Episode_link

type_synonym user_id = int
type_synonym addr = nat

text \<open>An element of a session's \<open>episodes\<close> array, as line 250 builds it.\<close>

record episode =
  episodeNumber :: "jsnum option"
  episode_title :: "jsstring option"
  streamingLink :: jsstring

text \<open>
  The value of \<open>userStates\<close> for one user. The handlers create it with three fields and
  add the others with object spread, so every other field is optional. The two arrays
  are objects of their own: the session holds a reference to them.
\<close>

record session =
  type :: content_type
  step :: step
  title :: "jsstring option"
  thumbnail :: "jsstring option"
  streamingLinks :: "addr option"
  episodes :: "addr option"
  episodeCount :: "jsnum option"
  currentEpisode :: "jsnum option"
  currentEpisodeTitle :: "jsstring option"

text \<open>
  A document of the \<open>Content\<close> collection (\<open>ContentSchema\<close>, without \<open>createdAt\<close>). An
  array path the constructor is not given defaults to the empty array.
\<close>

record content =
  doc_type :: content_type
  doc_title :: "jsstring option"
  doc_thumbnail :: "jsstring option"
  doc_streamingLinks :: "jsstring list"
  doc_episodes :: "episode list"

text \<open>
  The state of the process: the map \<open>userStates\<close>, the arrays the sessions refer to (one
  store for the arrays of links, one for the arrays of episodes, \<open>next_addr\<close> the first
  address no array literal has taken yet), and the documents saved to the collection,
  oldest first.
\<close>

record state =
  userStates :: "user_id \<rightharpoonup> session"
  link_arrays :: "addr \<Rightarrow> jsstring list"
  episode_arrays :: "addr \<Rightarrow> episode list"
  next_addr :: addr
  contents :: "content list"

text \<open>
  A Telegram message: \<open>message.text\<close> and \<open>message.photo\<close> (the \<open>file_id\<close> of each size),
  each \<open>undefined\<close> when the message has none.
\<close>

record message =
  msg_text :: "jsstring option"
  msg_photo :: "jsstring list option"

text \<open>
  What the outside world answers while one update is handled: the path
  \<open>downloadThumbnail\<close> resolves to after \<open>getFile\<close> (\<open>None\<close> when either throws),
  whether \<open>content.save()\<close> resolves, the documents \<open>Content.find().sort(...).limit(...)\<close>
  resolves to (\<open>None\<close> when it throws), and what \<open>Content.findById\<close> resolves to (\<open>None\<close>
  when it throws, \<open>Some None\<close> for \<open>null\<close>).
\<close>

record env =
  download :: "jsstring option"
  save_ok :: bool
  find_result :: "content list option"
  findById_result :: "content option option"

text \<open>The texts of \<open>ctx.reply\<close>, one constructor for each, in the order of the source.\<close>

datatype reply =
    Welcome
  | Send_movie_title
  | Send_series_title
  | No_content_yet
  | Recent_content "content list"
  | Error_fetching_content
  | No_content_to_edit
  | Select_content_to_edit "content list"
  | Error_fetching_for_editing
  | Send_thumbnail
  | Thumbnail_received_send_links
  | Thumbnail_received_how_many
  | Error_downloading_thumbnail
  | Send_an_image
  | Add_a_link_first
  | Movie_added
  | Error_saving_movie
  | Link_added nat
  | Starting_with_episode_1
  | Send_a_valid_number
  | Send_link_for_episode "jsnum option"
  | Series_added "jsstring option" nat
  | Error_saving_series
  | Now_for_episode jsnum
  | Send_a_valid_link
  | Content_not_found
  | Editing content
  | Error_loading_content

text \<open>
  The only exception that leaves a handler: reading \<open>length\<close> of \<open>undefined\<close> at line 194.
\<close>

datatype js_error = TypeError

text \<open>
  An update, by the handler Telegraf passes it to. Handlers run in the order of their
  registration and the first that matches ends the chain: the command \<open>/start\<close> reaches
  \<open>bot.start\<close>, a text equal to one of the four menu labels reaches its \<open>hears\<close> handler,
  and every other message reaches \<open>bot.on('message')\<close>. A button of the edit menu arrives
  as a callback query with its data.
\<close>

datatype update =
    Start
  | Add_movie user_id
  | Add_web_series user_id
  | View_content
  | Edit_content
  | Message user_id message
  | Callback_query jsstring

section \<open>The handlers\<close>

definition set_state :: "state \<Rightarrow> user_id \<Rightarrow> session \<Rightarrow> state" where
  "set_state st u s = st\<lparr>userStates := (userStates st)(u \<mapsto> s)\<rparr>"

definition delete_state :: "state \<Rightarrow> user_id \<Rightarrow> state" where
  "delete_state st u = st\<lparr>userStates := (userStates st)(u := None)\<rparr>"

text \<open>An array literal \<open>[]\<close>: a new, empty array at an address not in use.\<close>

definition new_links :: "state \<Rightarrow> addr \<times> state" where
  "new_links st =
     (next_addr st, st\<lparr>link_arrays := (link_arrays st)(next_addr st := []),
                       next_addr := Suc (next_addr st)\<rparr>)"

definition new_episodes :: "state \<Rightarrow> addr \<times> state" where
  "new_episodes st =
     (next_addr st, st\<lparr>episode_arrays := (episode_arrays st)(next_addr st := []),
                       next_addr := Suc (next_addr st)\<rparr>)"

text \<open>\<open>array.push(x)\<close> changes the array in place, for every holder of the reference.\<close>

definition push_link :: "state \<Rightarrow> addr \<Rightarrow> jsstring \<Rightarrow> state" where
  "push_link st a x = st\<lparr>link_arrays := (link_arrays st)(a := link_arrays st a @ [x])\<rparr>"

definition push_episode :: "state \<Rightarrow> addr \<Rightarrow> episode \<Rightarrow> state" where
  "push_episode st a x =
     st\<lparr>episode_arrays := (episode_arrays st)(a := episode_arrays st a @ [x])\<rparr>"

text \<open>\<open>content.save()\<close> that resolves: the document is in the collection.\<close>

definition save :: "state \<Rightarrow> content \<Rightarrow> state" where
  "save st d = st\<lparr>contents := contents st @ [d]\<rparr>"

subsection \<open>The two menu entries that open a session (lines 80 to 96)\<close>

definition add_movie :: "state \<Rightarrow> user_id \<Rightarrow> state \<times> reply list" where
  "add_movie st u =
     (let (a, st1) = new_links st
      in (set_state st1 u
            \<lparr>type = Movie, step = Title, title = None, thumbnail = None,
             streamingLinks = Some a, episodes = None, episodeCount = None,
             currentEpisode = None, currentEpisodeTitle = None\<rparr>,
          [Send_movie_title]))"

definition add_web_series :: "state \<Rightarrow> user_id \<Rightarrow> state \<times> reply list" where
  "add_web_series st u =
     (let (a, st1) = new_episodes st
      in (set_state st1 u
            \<lparr>type = Webseries, step = Title, title = None, thumbnail = None,
             streamingLinks = None, episodes = Some a, episodeCount = None,
             currentEpisode = None, currentEpisodeTitle = None\<rparr>,
          [Send_series_title]))"

subsection \<open>\<open>bot.on('message')\<close>, one definition for each case of the switch\<close>

definition case_title :: "state \<Rightarrow> user_id \<Rightarrow> session \<Rightarrow> message \<Rightarrow> state \<times> reply list" where
  "case_title st u s m =
     (if truthy (msg_text m)
      then (set_state st u (s\<lparr>title := msg_text m, step := Thumbnail\<rparr>), [Send_thumbnail])
      else (st, []))"

text \<open>
  An empty \<open>photo\<close> array is truthy, and reading \<open>file_id\<close> of its last element throws
  inside the \<open>try\<close>, as a failed download does.
\<close>

definition case_thumbnail ::
  "state \<Rightarrow> env \<Rightarrow> user_id \<Rightarrow> session \<Rightarrow> message \<Rightarrow> state \<times> reply list" where
  "case_thumbnail st e u s m =
     (case msg_photo m of
        Some sizes \<Rightarrow>
          (case (if sizes = [] then None else download e) of
             Some thumbnailPath \<Rightarrow>
               (set_state st u
                  (s\<lparr>thumbnail := Some thumbnailPath,
                     step := (if type s = Movie then Movie_links else Episode_count)\<rparr>),
                [if type s = Movie then Thumbnail_received_send_links
                 else Thumbnail_received_how_many])
           | None \<Rightarrow> (st, [Error_downloading_thumbnail]))
      | None \<Rightarrow> (st, [Send_an_image]))"

definition movie_of :: "state \<Rightarrow> session \<Rightarrow> content" where
  "movie_of st s =
     \<lparr>doc_type = type s, doc_title = title s, doc_thumbnail = thumbnail s,
      doc_streamingLinks = (case streamingLinks s of None \<Rightarrow> [] | Some a \<Rightarrow> link_arrays st a),
      doc_episodes = []\<rparr>"

definition case_movie_links ::
  "state \<Rightarrow> env \<Rightarrow> user_id \<Rightarrow> session \<Rightarrow> message \<Rightarrow> js_error + state \<times> reply list" where
  "case_movie_links st e u s m =
     (if msg_text m = Some (str ''/done'')
      then (case streamingLinks s of
              None \<Rightarrow> Inl TypeError
            | Some a \<Rightarrow>
                if length (link_arrays st a) = 0 then Inr (st, [Add_a_link_first])
                else if save_ok e
                then Inr (delete_state (save st (movie_of st s)) u, [Movie_added])
                else Inr (st, [Error_saving_movie]))
      else if truthy (msg_text m)
      then (let (links, st1) = (case streamingLinks s of
                                  Some a \<Rightarrow> (a, st)
                                | None \<Rightarrow> new_links st);
                st2 = push_link st1 links (the (msg_text m))
            in Inr (set_state st2 u (s\<lparr>streamingLinks := Some links\<rparr>),
                    [Link_added (length (link_arrays st2 links))]))
      else Inr (st, []))"

definition case_episode_count ::
  "state \<Rightarrow> user_id \<Rightarrow> session \<Rightarrow> message \<Rightarrow> state \<times> reply list" where
  "case_episode_count st u s m =
     (if truthy (msg_text m) \<and> \<not> isNaN (the (msg_text m))
      then (set_state st u
              (s\<lparr>episodeCount := Some (parseInt (the (msg_text m))),
                 currentEpisode := Some (Num 1),
                 step := Episode_title\<rparr>),
            [Starting_with_episode_1])
      else (st, [Send_a_valid_number]))"

definition case_episode_title ::
  "state \<Rightarrow> user_id \<Rightarrow> session \<Rightarrow> message \<Rightarrow> state \<times> reply list" where
  "case_episode_title st u s m =
     (if truthy (msg_text m)
      then (set_state st u (s\<lparr>currentEpisodeTitle := msg_text m, step := Episode_link\<rparr>),
            [Send_link_for_episode (currentEpisode s)])
      else (st, []))"

definition series_of :: "session \<Rightarrow> episode list \<Rightarrow> content" where
  "series_of s eps =
     \<lparr>doc_type = type s, doc_title = title s, doc_thumbnail = thumbnail s,
      doc_streamingLinks = [], doc_episodes = eps\<rparr>"

definition case_episode_link ::
  "state \<Rightarrow> env \<Rightarrow> user_id \<Rightarrow> session \<Rightarrow> message \<Rightarrow> state \<times> reply list" where
  "case_episode_link st e u s m =
     (if truthy (msg_text m)
      then (let (eps, st1) = (case episodes s of
                                Some a \<Rightarrow> (a, st)
                              | None \<Rightarrow> new_episodes st);
                st2 = push_episode st1 eps
                        \<lparr>episodeNumber = currentEpisode s,
                         episode_title = currentEpisodeTitle s,
                         streamingLink = the (msg_text m)\<rparr>
            in if js_ge (currentEpisode s) (episodeCount s)
               then (if save_ok e
                     then (delete_state (save st2 (series_of s (episode_arrays st2 eps))) u,
                           [Series_added (title s) (length (episode_arrays st2 eps))])
                     else (st2, [Error_saving_series]))
               else (set_state st2 u
                       (s\<lparr>episodes := Some eps,
                          currentEpisode := Some (js_add1 (currentEpisode s)),
                          step := Episode_title\<rparr>),
                     [Now_for_episode (js_add1 (currentEpisode s))]))
      else (st, [Send_a_valid_link]))"

definition on_message ::
  "state \<Rightarrow> env \<Rightarrow> user_id \<Rightarrow> message \<Rightarrow> js_error + state \<times> reply list" where
  "on_message st e u m =
     (case userStates st u of
        None \<Rightarrow> Inr (st, [])
      | Some s \<Rightarrow>
          (case step s of
             Title \<Rightarrow> Inr (case_title st u s m)
           | Thumbnail \<Rightarrow> Inr (case_thumbnail st e u s m)
           | Movie_links \<Rightarrow> case_movie_links st e u s m
           | Episode_count \<Rightarrow> Inr (case_episode_count st u s m)
           | Episode_title \<Rightarrow> Inr (case_episode_title st u s m)
           | Episode_link \<Rightarrow> Inr (case_episode_link st e u s m)))"

subsection \<open>The handlers that only read (lines 66 to 78, 98 to 142 and 291 to 321)\<close>

definition on_start :: "reply list" where
  "on_start = [Welcome]"

definition view_content :: "env \<Rightarrow> reply list" where
  "view_content e =
     (case find_result e of
        Some content \<Rightarrow> if length content = 0 then [No_content_yet] else [Recent_content content]
      | None \<Rightarrow> [Error_fetching_content])"

definition edit_content :: "env \<Rightarrow> reply list" where
  "edit_content e =
     (case find_result e of
        Some content \<Rightarrow>
          if length content = 0 then [No_content_to_edit] else [Select_content_to_edit content]
      | None \<Rightarrow> [Error_fetching_for_editing])"

text \<open>\<open>data.startsWith('edit_')\<close>, and then the three outcomes of \<open>findById\<close>.\<close>

definition on_callback_query :: "env \<Rightarrow> jsstring \<Rightarrow> reply list" where
  "on_callback_query e d =
     (if take 5 d = str ''edit_''
      then (case findById_result e of
              Some (Some content) \<Rightarrow> [Editing content]
            | Some None \<Rightarrow> [Content_not_found]
            | None \<Rightarrow> [Error_loading_content])
      else [])"

subsection \<open>One update, and a sequence of updates\<close>

definition handle_update :: "state \<Rightarrow> env \<Rightarrow> update \<Rightarrow> js_error + state \<times> reply list" where
  "handle_update st e upd =
     (case upd of
        Start \<Rightarrow> Inr (st, on_start)
      | Add_movie u \<Rightarrow> Inr (add_movie st u)
      | Add_web_series u \<Rightarrow> Inr (add_web_series st u)
      | View_content \<Rightarrow> Inr (st, view_content e)
      | Edit_content \<Rightarrow> Inr (st, edit_content e)
      | Message u m \<Rightarrow> on_message st e u m
      | Callback_query d \<Rightarrow> Inr (st, on_callback_query e d))"

text \<open>
  Updates are handled one at a time, each to its end, as section 5 of the specification
  has it; the run stops at an exception that leaves a handler.
\<close>

fun run :: "state \<Rightarrow> (env \<times> update) list \<Rightarrow> js_error + state" where
  "run st [] = Inr st"
| "run st ((e, upd) # rest) =
     (case handle_update st e upd of
        Inl err \<Rightarrow> Inl err
      | Inr (st', replies) \<Rightarrow> run st' rest)"

text \<open>The process starts with no session.\<close>

definition initial :: "state \<Rightarrow> bool" where
  "initial st \<longleftrightarrow> userStates st = Map.empty"

section \<open>The read API (lines 333 to 340)\<close>







section \<open>Notions the properties are stated with\<close>

subsection \<open>The transition table of section 4.2 of the specification\<close>

text \<open>The step that follows a step on valid input, for a session of each type.\<close>

fun next_step :: "content_type \<Rightarrow> step \<Rightarrow> step \<Rightarrow> bool" where
  "next_step t Title p = (p = Thumbnail)"
| "next_step t Thumbnail p = (p = (case t of Movie \<Rightarrow> Movie_links | Webseries \<Rightarrow> Episode_count))"
| "next_step t Movie_links p = False"
| "next_step t Episode_count p = (p = Episode_title)"
| "next_step t Episode_title p = (p = Episode_link)"
| "next_step t Episode_link p = (p = Episode_title)"

text \<open>The two steps at which a record is persisted and the session ends.\<close>

definition ends_session :: "step \<Rightarrow> bool" where
  "ends_session p \<longleftrightarrow> p = Movie_links \<or> p = Episode_link"

text \<open>
  The table as a relation between what \<open>userStates\<close> holds for one user before and after
  an event (\<open>None\<close> is the state \<open>(none)\<close>): from no session a session at \<open>title\<close> may be
  created; a session keeps its type and either stays at its step (a reprompt, or one more
  link) or moves to the next one; it ends only at a persist point.
\<close>

definition table :: "session option \<Rightarrow> session option \<Rightarrow> bool" where
  "table a b =
     (case a of
        None \<Rightarrow> (case b of None \<Rightarrow> True | Some s' \<Rightarrow> step s' = Title)
      | Some s \<Rightarrow>
          (case b of
             None \<Rightarrow> ends_session (step s)
           | Some s' \<Rightarrow>
               type s' = type s \<and> (step s' = step s \<or> next_step (type s) (step s) (step s'))))"

text \<open>The steps that come after \<open>thumbnail\<close>.\<close>

definition after_thumbnail :: "step \<Rightarrow> bool" where
  "after_thumbnail p \<longleftrightarrow>
     p = Movie_links \<or> p = Episode_count \<or> p = Episode_title \<or> p = Episode_link"

text \<open>
  The step of one user in each state of a run, the first state included (\<open>None\<close> where the
  user has no session).
\<close>

fun steps_of :: "user_id \<Rightarrow> state \<Rightarrow> (env \<times> update) list \<Rightarrow> step option list" where
  "steps_of u st [] = [map_option step (userStates st u)]"
| "steps_of u st ((e, upd) # rest) =
     map_option step (userStates st u) #
     (case handle_update st e upd of
        Inl err \<Rightarrow> []
      | Inr (st', replies) \<Rightarrow> steps_of u st' rest)"

subsection \<open>Persisted records\<close>

text \<open>The documents a run from \<open>st0\<close> to \<open>st\<close> has added to the collection.\<close>

definition persisted :: "state \<Rightarrow> state \<Rightarrow> content list" where
  "persisted st0 st = drop (length (contents st0)) (contents st)"

text \<open>The episode numbers \<open>1, ..., n\<close>.\<close>

definition numbers :: "int \<Rightarrow> jsnum option list" where
  "numbers n = map (\<lambda>i. Some (Num i)) [1..n]"

text \<open>No \<open>save\<close> fails among the events.\<close>

definition no_save_fails :: "(env \<times> update) list \<Rightarrow> bool" where
  "no_save_fails evs = list_all (\<lambda>ev. save_ok (fst ev)) evs"

text \<open>The messages of one user, each with what the outside world answers.\<close>

definition messages_of :: "user_id \<Rightarrow> (env \<times> message) list \<Rightarrow> (env \<times> update) list" where
  "messages_of u ems = map (\<lambda>em. (fst em, Message u (snd em))) ems"

subsection \<open>What holds of every session of a run\<close>

text \<open>
  A movie session is at one of the first three steps, has its array of links and no array
  of episodes; a series
  session is never at \<open>movie_links\<close> and has its array of episodes; title and thumbnail
  are set once their steps are passed. Before the episode loop the array is empty; in
  the loop \<open>counter_ok\<close> holds of the counter, the count and the array.

  \<open>counter_ok\<close>: the counter is an integer \<open>c\<close> from 1 to \<open>2^53\<close> that has not passed a
  numeric \<open>episodeCount\<close> other than by starting at 1, and the array holds the numbers
  \<open>1, ..., c - 1\<close> followed by \<open>k\<close> times the number \<open>c\<close>. There are such repetitions only
  at \<open>episode_link\<close> after a \<open>save\<close> that has failed (never when \<open>strict\<close>), or when the
  counter has come to \<open>2^53\<close> below the count, where \<open>c + 1\<close> is \<open>c\<close> again.
\<close>

definition counter_ok ::
  "bool \<Rightarrow> bool \<Rightarrow> jsnum option \<Rightarrow> jsnum option \<Rightarrow> episode list \<Rightarrow> bool" where
  "counter_ok strict at_link cur cnt eps \<longleftrightarrow>
     (\<exists>c k. cur = Some (Num c) \<and> 1 \<le> c \<and> c \<le> 2 ^ 53 \<and>
        (\<forall>n. cnt = Some (Num n) \<longrightarrow> c = 1 \<or> c \<le> n) \<and>
        map episodeNumber eps = numbers (c - 1) @ replicate k (Some (Num c)) \<and>
        (0 < k \<longrightarrow> at_link \<and> \<not> strict \<and> js_ge cur cnt \<or> c = 2 ^ 53 \<and> \<not> js_ge cur cnt))"

definition session_ok :: "bool \<Rightarrow> state \<Rightarrow> session \<Rightarrow> bool" where
  "session_ok strict st s \<longleftrightarrow>
     (case type s of
        Movie \<Rightarrow>
          (step s = Title \<or> step s = Thumbnail \<or> step s = Movie_links) \<and>
          (\<exists>a. streamingLinks s = Some a \<and> a < next_addr st) \<and> episodes s = None
      | Webseries \<Rightarrow>
          step s \<noteq> Movie_links \<and>
          (\<exists>a. episodes s = Some a \<and> a < next_addr st \<and>
             (case step s of
                Episode_title \<Rightarrow>
                  counter_ok strict False (currentEpisode s) (episodeCount s)
                    (episode_arrays st a)
              | Episode_link \<Rightarrow>
                  counter_ok strict True (currentEpisode s) (episodeCount s)
                    (episode_arrays st a)
              | _ \<Rightarrow> episode_arrays st a = []))) \<and>
     (step s \<noteq> Title \<longrightarrow> truthy (title s)) \<and>
     (after_thumbnail (step s) \<longrightarrow> thumbnail s \<noteq> None)"

text \<open>The sessions of two users never share an array of episodes.\<close>

definition no_alias :: "state \<Rightarrow> bool" where
  "no_alias st \<longleftrightarrow>
     (\<forall>u v s t. u \<noteq> v \<and> userStates st u = Some s \<and> userStates st v = Some t \<and>
        episodes s \<noteq> None \<longrightarrow> episodes s \<noteq> episodes t)"

definition inv :: "bool \<Rightarrow> state \<Rightarrow> bool" where
  "inv strict st \<longleftrightarrow>
     (\<forall>u s. userStates st u = Some s \<longrightarrow> session_ok strict st s) \<and> no_alias st"

subsection \<open>The episode loop without a count\<close>

text \<open>The user has a session in the episode loop whose \<open>episodeCount\<close> is \<open>NaN\<close>.\<close>

definition in_nan_loop :: "state \<Rightarrow> user_id \<Rightarrow> bool" where
  "in_nan_loop st u \<longleftrightarrow>
     (\<exists>s. userStates st u = Some s \<and> episodeCount s = Some NaN \<and>
          (step s = Episode_title \<or> step s = Episode_link))"

subsection \<open>Concrete inputs\<close>

text \<open>A process that has just started, with an empty collection.\<close>

definition start_state :: state where
  "start_state =
     \<lparr>userStates = Map.empty, link_arrays = (\<lambda>a. []), episode_arrays = (\<lambda>a. []),
      next_addr = 0, contents = []\<rparr>"

definition text_message :: "string \<Rightarrow> message" where
  "text_message s = \<lparr>msg_text = Some (str s), msg_photo = None\<rparr>"

definition photo_message :: message where
  "photo_message = \<lparr>msg_text = None, msg_photo = Some [str ''small'', str ''large'']\<rparr>"

text \<open>The download gives a path; the store accepts the document, or refuses it.\<close>

definition env_ok :: env where
  "env_ok =
     \<lparr>download = Some (str ''/thumbnails/thumbnail_1.jpg''), save_ok = True,
      find_result = Some [], findById_result = Some None\<rparr>"

definition env_save_fails :: env where
  "env_save_fails =
     \<lparr>download = Some (str ''/thumbnails/thumbnail_1.jpg''), save_ok = False,
      find_result = Some [], findById_result = Some None\<rparr>"

text \<open>The state a run from \<open>start_state\<close> ends in.\<close>

definition state_after :: "(env \<times> update) list \<Rightarrow> state" where
  "state_after evs = (case run start_state evs of Inr st \<Rightarrow> st | Inl err \<Rightarrow> start_state)"

text \<open>
  User 7 has opened a movie session and sent a title, a photo and one link; the session
  is at \<open>movie_links\<close>.
\<close>

definition movie_with_one_link :: "(env \<times> update) list" where
  "movie_with_one_link =
     [(env_ok, Add_movie 7), (env_ok, Message 7 (text_message ''Test'')),
      (env_ok, Message 7 photo_message), (env_ok, Message 7 (text_message ''http://a''))]"

text \<open>
  User 7 has opened a series session and sent a title and a photo; the session is at
  \<open>episode_count\<close>.
\<close>

definition series_before_count :: "(env \<times> update) list" where
  "series_before_count =
     [(env_ok, Add_web_series 7), (env_ok, Message 7 (text_message ''S1'')),
      (env_ok, Message 7 photo_message)]"

text \<open>A store that holds one movie, holds nothing under a second id and fails on a third.\<close>

definition a_movie :: content where
  "a_movie =
     \<lparr>doc_type = Movie, doc_title = Some (str ''Test''),
      doc_thumbnail = Some (str ''/thumbnails/thumbnail_1.jpg''),
      doc_streamingLinks = [str ''http://a''], doc_episodes = []\<rparr>"


text \<open>
  User 7 has announced one episode and sent its title; the session is at \<open>episode_link\<close>
  for the last (and only) episode.
\<close>

definition series_at_last_link :: "(env \<times> update) list" where
  "series_at_last_link =
     series_before_count @
     [(env_ok, Message 7 (text_message ''1'')), (env_ok, Message 7 (text_message ''Ep1''))]"

text \<open>
  The second scenario of the specification up to its last message: user 7 has announced
  two episodes, sent the first and the title of the second.
\<close>

definition series_of_two_at_last_link :: "(env \<times> update) list" where
  "series_of_two_at_last_link =
     series_before_count @
     [(env_ok, Message 7 (text_message ''2'')), (env_ok, Message 7 (text_message ''Ep1'')),
      (env_ok, Message 7 (text_message ''linkA'')), (env_ok, Message 7 (text_message ''Ep2''))]"

text \<open>User 7 has announced no episode at all and sent a title all the same.\<close>

definition series_of_none_at_link :: "(env \<times> update) list" where
  "series_of_none_at_link =
     series_before_count @
     [(env_ok, Message 7 (text_message ''0'')), (env_ok, Message 7 (text_message ''Ep1''))]"

subsection \<open>Rounds of the episode loop\<close>

text \<open>
  One round is a title and then a link, both texts; \<open>episode_rounds\<close> is a sequence of
  rounds of one user, with every \<open>save\<close> succeeding (the answers of \<open>env_ok\<close>). \<open>numbered\<close> builds the episodes the
  rounds give when the first is number \<open>c\<close>.
\<close>

definition text_of :: "jsstring \<Rightarrow> message" where
  "text_of t = \<lparr>msg_text = Some t, msg_photo = None\<rparr>"

definition episode_round :: "user_id \<Rightarrow> jsstring \<times> jsstring \<Rightarrow> (env \<times> update) list" where
  "episode_round u r =
     [(env_ok, Message u (text_of (fst r))), (env_ok, Message u (text_of (snd r)))]"

definition episode_rounds :: "user_id \<Rightarrow> (jsstring \<times> jsstring) list \<Rightarrow> (env \<times> update) list" where
  "episode_rounds u rnds = concat (map (episode_round u) rnds)"

fun numbered :: "int \<Rightarrow> (jsstring \<times> jsstring) list \<Rightarrow> episode list" where
  "numbered c [] = []"
| "numbered c (r # rnds) =
     \<lparr>episodeNumber = Some (Num c), episode_title = Some (fst r), streamingLink = snd r\<rparr> #
     numbered (c + 1) rnds"

section \<open>Facts about the JavaScript functions\<close>

subsection \<open>Doubles\<close>

lemma to_double_small: "\<bar>m\<bar> < 2 ^ 53 \<Longrightarrow> to_double m = Num m"
proof -
  assume a: "\<bar>m\<bar> < 2 ^ 53"
  then have l: "nat \<bar>m\<bar> < 2 ^ 53" by (simp add: nat_less_iff)
  then have r: "round_nat (nat \<bar>m\<bar>) = nat \<bar>m\<bar>" by (simp add: round_nat_def)
  have "(2::nat) ^ 53 \<le> 2 ^ 1024 - 2 ^ 970" by simp
  then have n: "\<not> 2 ^ 1024 - 2 ^ 970 \<le> nat \<bar>m\<bar>" using l by linarith
  show ?thesis
  proof (cases "m < 0")
    case True
    then have "nat \<bar>m\<bar> = nat (- m)" by simp
    with r n True show ?thesis by (simp add: to_double_def Let_def)
  next
    case False
    then have "nat \<bar>m\<bar> = nat m" by simp
    with r n False show ?thesis by (simp add: to_double_def Let_def)
  qed
qed

lemmas double_eval = to_double_def round_nat_def bits.simps Let_def

text \<open>\<open>2^53\<close> is a double, and \<open>2^53 + 1\<close> is not: its double is \<open>2^53\<close>.\<close>

lemma to_double_2_53: "to_double 9007199254740992 = Num 9007199254740992"
  by (simp add: double_eval)

lemma to_double_2_53_plus_1: "to_double 9007199254740993 = Num 9007199254740992"
  by (simp add: double_eval)

lemma to_double_exact: "0 \<le> m \<Longrightarrow> m \<le> 2 ^ 53 \<Longrightarrow> to_double m = Num m"
proof -
  assume "0 \<le> m" "m \<le> 2 ^ 53"
  then consider "\<bar>m\<bar> < 2 ^ 53" | "m = 9007199254740992" by fastforce
  then show ?thesis by cases (simp_all add: to_double_small to_double_2_53)
qed

lemma js_add1_exact: "0 \<le> c \<Longrightarrow> c < 2 ^ 53 \<Longrightarrow> js_add1 (Some (Num c)) = Num (c + 1)"
  by (simp add: js_add1_def to_number_def to_double_exact)

lemma js_add1_stuck: "js_add1 (Some (Num (2 ^ 53))) = Num (2 ^ 53)"
  using to_double_2_53_plus_1 by (simp add: js_add1_def to_number_def)

lemma digits_value_nonneg: "0 \<le> digits_value r z"
proof -
  have "0 \<le> a \<Longrightarrow> 0 \<le> foldl (\<lambda>a c. a * int r +
          int (case digit_value r c of None \<Rightarrow> 0 | Some d \<Rightarrow> d)) a z" for a
    by (induction z arbitrary: a) simp_all
  then show ?thesis by (simp add: digits_value_def)
qed

text \<open>The value of \<open>n\<close> nines.\<close>

lemma digits_value_nines: "digits_value 10 (replicate n 57) = 10 ^ n - 1"
proof -
  have "foldl (\<lambda>a c. a * int 10 + int (case digit_value 10 c of None \<Rightarrow> 0 | Some d \<Rightarrow> d)) a
          (replicate n 57) = (a + 1) * 10 ^ n - 1" for a
  proof (induction n arbitrary: a)
    case 0
    then show ?case by simp
  next
    case (Suc n)
    have "digit_value 10 57 = Some 9" by (simp add: digit_value_def)
    then show ?case using Suc[of "a * 10 + 9"] by (simp add: algebra_simps)
  qed
  from this[of 0] show ?thesis by (simp add: digits_value_def)
qed

subsection \<open>Strings of digits and of white space\<close>

lemma all_digits_not_NaN:
  assumes "t \<noteq> []" "list_all is_digit t"
  shows "\<not> isNaN t"
proof -
  have nws: "\<And>c. is_digit c \<Longrightarrow> \<not> is_white_space c"
    by (auto simp: is_digit_def is_white_space_def)
  have h: "\<not> is_white_space (hd t)" using assms nws by (cases t) auto
  have l: "\<not> is_white_space (last t)" using assms nws by (cases t rule: rev_cases) auto
  have "dropWhile is_white_space t = t" using assms h by (cases t) auto
  moreover have "dropWhile is_white_space (rev t) = rev t" using assms l by (cases t rule: rev_cases) auto
  ultimately have tr: "trim t = t" by (simp add: trim_def)
  have ns: "\<not> is_sign (hd t)" using assms by (cases t) (auto simp: is_sign_def is_digit_def)
  have tw: "takeWhile is_digit t = t" "dropWhile is_digit t = []"
    using assms by (auto simp: list_all_iff)
  have "is_StrDecimalLiteral t"
    using assms(1) by (simp add: is_StrDecimalLiteral_def is_StrUnsignedDecimalLiteral_def exponent_opt_def ns tw)
  then show ?thesis by (simp add: isNaN_def is_StringNumericLiteral_def tr)
qed

lemma all_digits_parseInt:
  assumes "t \<noteq> []" "list_all is_digit t"
  shows "parseInt t = to_double (digits_value 10 t)"
proof -
  have nws: "\<And>c. is_digit c \<Longrightarrow> \<not> is_white_space c"
    by (auto simp: is_digit_def is_white_space_def)
  have h: "\<not> is_white_space (hd t)" using assms nws by (cases t) auto
  have dw: "dropWhile is_white_space t = t" using assms h by (cases t) auto
  have hd: "is_digit (hd t)" using assms by (cases t) auto
  then have ns: "hd t \<noteq> 43" "hd t \<noteq> 45" by (auto simp: is_digit_def)
  have nothex: "take 2 t \<noteq> [48, 120]" "take 2 t \<noteq> [48, 88]"
    using assms by (cases t; cases "tl t"; auto simp: is_digit_def)+
  have rd: "\<And>c. is_digit c \<Longrightarrow> is_radix_digit 10 c"
    by (auto simp: is_digit_def is_radix_digit_def digit_value_def)
  have tw: "takeWhile (is_radix_digit 10) t = t"
    using assms rd by (auto simp: list_all_iff)
  show ?thesis using assms(1) by (simp add: parseInt_def Let_def ns nothex tw dw)
qed

text \<open>A minus sign before the digits: the text is numeric, and \<open>parseInt\<close> negates.\<close>

lemma minus_digits:
  assumes "t \<noteq> []" "list_all is_digit t"
  shows "\<not> isNaN (45 # t)" "parseInt (45 # t) = to_double (- digits_value 10 t)"
proof -
  have nws: "\<And>c. is_digit c \<Longrightarrow> \<not> is_white_space c"
    by (auto simp: is_digit_def is_white_space_def)
  have m: "\<not> is_white_space 45" by (simp add: is_white_space_def)
  have l: "\<not> is_white_space (last t)" using assms nws by (cases t rule: rev_cases) auto
  have "dropWhile is_white_space (rev t @ [45]) = rev t @ [45]"
    using assms l by (cases t rule: rev_cases) auto
  then have tr: "trim (45 # t) = 45 # t" using m by (simp add: trim_def)
  have tw: "takeWhile is_digit t = t" "dropWhile is_digit t = []"
    using assms by (auto simp: list_all_iff)
  have "is_StrDecimalLiteral (45 # t)"
    using assms(1)
    by (simp add: is_StrDecimalLiteral_def is_StrUnsignedDecimalLiteral_def exponent_opt_def
        is_sign_def tw)
  then show "\<not> isNaN (45 # t)" by (simp add: isNaN_def is_StringNumericLiteral_def tr)
  have nothex: "take 2 t \<noteq> [48, 120]" "take 2 t \<noteq> [48, 88]"
    using assms by (cases t; cases "tl t"; auto simp: is_digit_def)+
  have rd: "\<And>c. is_digit c \<Longrightarrow> is_radix_digit 10 c"
    by (auto simp: is_digit_def is_radix_digit_def digit_value_def)
  have tw10: "takeWhile (is_radix_digit 10) t = t"
    using assms rd by (auto simp: list_all_iff)
  show "parseInt (45 # t) = to_double (- digits_value 10 t)"
    using assms(1) m by (simp add: parseInt_def Let_def nothex tw10)
qed

text \<open>A minus sign and four hundred nines: a numeric text that parses to \<open>-Infinity\<close>.\<close>

lemma minus_nines:
  "\<not> isNaN (45 # replicate 400 57)" "parseInt (45 # replicate 400 57) = Neg_infinity"
proof -
  have d: "replicate 400 57 \<noteq> []" "list_all is_digit (replicate 400 57)"
    by (simp_all add: is_digit_def list_all_iff)
  show "\<not> isNaN (45 # replicate 400 57)" using d by (rule minus_digits(1))
  show "parseInt (45 # replicate 400 57) = Neg_infinity"
    by (simp add: minus_digits(2)[OF d] digits_value_nines to_double_def)
qed

lemma all_white_space:
  assumes "t \<noteq> []" "list_all is_white_space t"
  shows "\<not> isNaN t" "parseInt t = NaN"
proof -
  have dw: "dropWhile is_white_space t = []" using assms by (simp add: list_all_iff)
  show "\<not> isNaN t" by (simp add: isNaN_def is_StringNumericLiteral_def trim_def dw)
  show "parseInt t = NaN" by (simp add: parseInt_def dw)
qed

section \<open>The invariant of a run\<close>

lemma numbers_snoc: "1 \<le> c \<Longrightarrow> numbers (c - 1) @ [Some (Num c)] = numbers c"
proof -
  assume "1 \<le> c"
  then have "[1..c] = [1..c - 1] @ [c]" by (simp add: upto_rec2)
  then show ?thesis by (simp add: numbers_def)
qed

lemma numbers_0: "numbers 0 = []" by (simp add: numbers_def)

lemma length_numbers: "0 \<le> n \<Longrightarrow> int (length (numbers n)) = n"
  by (simp add: numbers_def)

lemma session_ok_frame:
  assumes "session_ok b st s" and "next_addr st \<le> next_addr st'"
    and "\<And>a. episodes s = Some a \<Longrightarrow> episode_arrays st' a = episode_arrays st a"
  shows "session_ok b st' s"
  using assms unfolding session_ok_def
  by (cases "type s"; cases "step s") (auto simp: )

lemma inv_initial: "initial st \<Longrightarrow> inv b st"
  by (simp add: initial_def inv_def no_alias_def)

lemma inv_session_ok: "inv b st \<Longrightarrow> userStates st u = Some s \<Longrightarrow> session_ok b st s"
  by (simp add: inv_def)

lemma inv_no_alias:
  "inv b st \<Longrightarrow> v \<noteq> w \<Longrightarrow> userStates st v = Some x \<Longrightarrow> userStates st w = Some y \<Longrightarrow>
   episodes x = Some a \<Longrightarrow> episodes y \<noteq> Some a"
  unfolding inv_def no_alias_def by (metis option.distinct(1))

lemma session_ok_addr: "session_ok b st s \<Longrightarrow> episodes s = Some a \<Longrightarrow> a < next_addr st"
  by (cases "type s") (auto simp: session_ok_def)

text \<open>
  One user's entry is replaced or removed, the arrays of the others are left alone, and
  the new entry is well formed and shares no array with them.
\<close>

lemma inv_replace:
  assumes i: "inv b st"
    and others: "\<And>v. v \<noteq> u \<Longrightarrow> userStates st' v = userStates st v"
    and mine: "\<And>s'. userStates st' u = Some s' \<Longrightarrow> session_ok b st' s'"
    and apart: "\<And>s' v t a. userStates st' u = Some s' \<Longrightarrow> v \<noteq> u \<Longrightarrow>
                  userStates st v = Some t \<Longrightarrow> episodes s' = Some a \<Longrightarrow> episodes t \<noteq> Some a"
    and addr: "next_addr st \<le> next_addr st'"
    and arrays: "\<And>v t a. v \<noteq> u \<Longrightarrow> userStates st v = Some t \<Longrightarrow> episodes t = Some a \<Longrightarrow>
                  episode_arrays st' a = episode_arrays st a"
  shows "inv b st'"
proof -
  have ok: "session_ok b st' t" if "userStates st' v = Some t" for v t
  proof (cases "v = u")
    case True
    then show ?thesis using that mine by simp
  next
    case False
    then have old: "userStates st v = Some t" using that others by simp
    show ?thesis
    proof (rule session_ok_frame)
      show "session_ok b st t" using i old by (rule inv_session_ok)
      show "next_addr st \<le> next_addr st'" by (rule addr)
      fix a assume "episodes t = Some a"
      then show "episode_arrays st' a = episode_arrays st a" using False old arrays by blast
    qed
  qed
  have "episodes x \<noteq> episodes y"
    if h: "v \<noteq> w" "userStates st' v = Some x" "userStates st' w = Some y" "episodes x \<noteq> None"
    for v w x y
  proof -
    obtain a where a: "episodes x = Some a" using h(4) by auto
    show ?thesis
    proof (cases "v = u")
      case True
      then have "userStates st w = Some y" using h others by metis
      then show ?thesis using apart[of x w y a] h True a by auto
    next
      case False
      then have vx: "userStates st v = Some x" using h others by simp
      show ?thesis
      proof (cases "w = u")
        case True
        then show ?thesis using apart[of y v x a] h False vx a by auto
      next
        case False
        then have "userStates st w = Some y" using h others by simp
        then show ?thesis using inv_no_alias[OF i h(1) vx _ a] a by auto
      qed
    qed
  qed
  then have "no_alias st'" unfolding no_alias_def by blast
  then show ?thesis using ok by (simp add: inv_def)
qed

text \<open>The same when the new entry holds the array the old one held.\<close>

lemma inv_update:
  assumes i: "inv b st" and old: "userStates st u = Some s"
    and others: "\<And>v. v \<noteq> u \<Longrightarrow> userStates st' v = userStates st v"
    and mine: "\<And>s'. userStates st' u = Some s' \<Longrightarrow> session_ok b st' s' \<and> episodes s' = episodes s"
    and addr: "next_addr st \<le> next_addr st'"
    and arrays: "\<And>a. episodes s \<noteq> Some a \<Longrightarrow> a < next_addr st \<Longrightarrow>
                  episode_arrays st' a = episode_arrays st a"
  shows "inv b st'"
proof (rule inv_replace[OF i others _ _ addr])
  fix s' assume "userStates st' u = Some s'"
  then show "session_ok b st' s'" using mine by simp
next
  fix s' v t a
  assume "userStates st' u = Some s'" "v \<noteq> u" "userStates st v = Some t" "episodes s' = Some a"
  then show "episodes t \<noteq> Some a"
    using mine[of s'] inv_no_alias[OF i _ old, of v t a] by auto
next
  fix v t a
  assume h: "v \<noteq> u" "userStates st v = Some t" "episodes t = Some a"
  have "episodes s \<noteq> Some a" using inv_no_alias[OF i h(1) h(2) old h(3)] .
  moreover have "a < next_addr st" using inv_session_ok[OF i h(2)] h(3) by (rule session_ok_addr)
  ultimately show "episode_arrays st' a = episode_arrays st a" by (rule arrays)
qed simp


subsection \<open>Each handler keeps the invariant\<close>

lemma inv_add_movie: "inv b st \<Longrightarrow> inv b (fst (add_movie st u))"
proof (erule inv_replace[where u = u])
  fix s' assume "userStates (fst (add_movie st u)) u = Some s'"
  then show "session_ok b (fst (add_movie st u)) s'"
    by (auto simp: add_movie_def new_links_def set_state_def session_ok_def after_thumbnail_def)
qed (auto simp: add_movie_def new_links_def set_state_def)

lemma inv_add_web_series:
  assumes "inv b st" shows "inv b (fst (add_web_series st u))"
proof (rule inv_replace[OF assms, where u = u])
  fix s' assume "userStates (fst (add_web_series st u)) u = Some s'"
  then show "session_ok b (fst (add_web_series st u)) s'"
    by (auto simp: add_web_series_def new_episodes_def set_state_def session_ok_def
        after_thumbnail_def)
next
  fix s' v t a
  assume h: "userStates (fst (add_web_series st u)) u = Some s'" "v \<noteq> u"
    "userStates st v = Some t" "episodes s' = Some a"
  then have "a = next_addr st"
    by (auto simp: add_web_series_def new_episodes_def set_state_def)
  moreover have "episodes t = Some a \<Longrightarrow> a < next_addr st"
    using inv_session_ok[OF assms h(3)] by (rule session_ok_addr)
  ultimately show "episodes t \<noteq> Some a" by auto
next
  fix v t a
  assume h: "v \<noteq> u" "userStates st v = Some t" "episodes t = Some a"
  have "a < next_addr st" using inv_session_ok[OF assms h(2)] h(3) by (rule session_ok_addr)
  then show "episode_arrays (fst (add_web_series st u)) a = episode_arrays st a"
    by (simp add: add_web_series_def new_episodes_def set_state_def)
qed (auto simp: add_web_series_def new_episodes_def set_state_def)

text \<open>The session changes, no array does.\<close>

lemma inv_set_state:
  assumes "inv b st" and "userStates st u = Some s" and "session_ok b st s'"
    and "episodes s' = episodes s"
  shows "inv b (set_state st u s')"
proof (rule inv_update[OF assms(1,2)])
  fix t assume "userStates (set_state st u s') u = Some t"
  then have "t = s'" by (simp add: set_state_def)
  moreover have "session_ok b (set_state st u s') s'"
    using assms(3) by (rule session_ok_frame) (simp_all add: set_state_def)
  ultimately show "session_ok b (set_state st u s') t \<and> episodes t = episodes s"
    using assms(4) by simp
qed (simp_all add: set_state_def)

lemma ok_title:
  "session_ok b st s \<Longrightarrow> step s = Title \<Longrightarrow> truthy t \<Longrightarrow>
   session_ok b st (s\<lparr>title := t, step := Thumbnail\<rparr>)"
  by (cases "type s") (auto simp: session_ok_def after_thumbnail_def)

lemma inv_case_title:
  assumes "inv b st" and "userStates st u = Some s" and "step s = Title"
  shows "inv b (fst (case_title st u s m))"
  using assms
  by (auto simp: case_title_def intro!: inv_set_state[where s = s] ok_title dest: inv_session_ok)

lemma ok_thumbnail:
  "session_ok b st s \<Longrightarrow> step s = Thumbnail \<Longrightarrow>
   session_ok b st (s\<lparr>thumbnail := Some p,
       step := (if type s = Movie then Movie_links else Episode_count)\<rparr>)"
  by (cases "type s") (auto simp: session_ok_def after_thumbnail_def)

lemma inv_case_thumbnail:
  assumes "inv b st" and "userStates st u = Some s" and "step s = Thumbnail"
  shows "inv b (fst (case_thumbnail st e u s m))"
proof -
  have "inv b (set_state st u (s\<lparr>thumbnail := Some p,
       step := (if type s = Movie then Movie_links else Episode_count)\<rparr>))" for p
    using assms by (intro inv_set_state[where s = s] ok_thumbnail inv_session_ok[where u = u]) simp_all
  note h = this
  from h have "inv b (set_state st u (s\<lparr>thumbnail := Some p, step := Movie_links\<rparr>))"
    if "type s = Movie" for p using that by (metis (full_types))
  moreover from h have "inv b (set_state st u (s\<lparr>thumbnail := Some p, step := Episode_count\<rparr>))"
    if "type s \<noteq> Movie" for p using that by (metis (full_types))
  ultimately show ?thesis using assms(1)
    by (simp add: case_thumbnail_def split: option.splits)
qed

lemma movie_links_is_movie:
  "session_ok b st s \<Longrightarrow> step s = Movie_links \<Longrightarrow>
   type s = Movie \<and> (\<exists>a. streamingLinks s = Some a) \<and> episodes s = None"
  by (cases "type s") (auto simp: session_ok_def)

lemma inv_persisted:
  assumes "inv b st" and "userStates st' = (userStates st)(u := None)"
    and "next_addr st' = next_addr st"
    and "\<And>v t a. v \<noteq> u \<Longrightarrow> userStates st v = Some t \<Longrightarrow> episodes t = Some a \<Longrightarrow>
           episode_arrays st' a = episode_arrays st a"
  shows "inv b st'"
proof (rule inv_replace[OF assms(1), where u = u])
  show "\<And>v. v \<noteq> u \<Longrightarrow> userStates st' v = userStates st v" by (simp add: assms(2))
  show "\<And>s'. userStates st' u = Some s' \<Longrightarrow> session_ok b st' s'" by (simp add: assms(2))
  show "\<And>s' v t a. userStates st' u = Some s' \<Longrightarrow> v \<noteq> u \<Longrightarrow> userStates st v = Some t \<Longrightarrow>
          episodes s' = Some a \<Longrightarrow> episodes t \<noteq> Some a" by (simp add: assms(2))
  show "next_addr st \<le> next_addr st'" by (simp add: assms(3))
  show "\<And>v t a. v \<noteq> u \<Longrightarrow> userStates st v = Some t \<Longrightarrow> episodes t = Some a \<Longrightarrow>
          episode_arrays st' a = episode_arrays st a" by (rule assms(4))
qed

lemma inv_case_movie_links:
  assumes "inv b st" and "userStates st u = Some s" and "step s = Movie_links"
    and "case_movie_links st e u s m = Inr (st', rs)"
  shows "inv b st'"
proof -
  have ok: "session_ok b st s" using assms(1,2) by (rule inv_session_ok)
  then obtain a where a: "streamingLinks s = Some a" "episodes s = None"
    using assms(3) movie_links_is_movie by blast
  have 1: "inv b (delete_state (save st d) u)" for d
    by (rule inv_persisted[OF assms(1), where u = u]) (simp_all add: delete_state_def save_def)
  have sa: "s\<lparr>streamingLinks := Some a\<rparr> = s" using a(1) by (cases s) simp
  have 2: "inv b (set_state (push_link st a x) u s)" for x
  proof (rule inv_update[OF assms(1,2)])
    fix s' assume "userStates (set_state (push_link st a x) u s) u = Some s'"
    then have "s' = s" by (simp add: set_state_def)
    moreover have "session_ok b (set_state (push_link st a x) u s) s"
      using ok by (rule session_ok_frame) (simp_all add: push_link_def set_state_def)
    ultimately show "session_ok b (set_state (push_link st a x) u s) s' \<and> episodes s' = episodes s"
      by simp
  qed (simp_all add: set_state_def push_link_def)
  consider (done_empty) "st' = st" | (saved) d where "st' = delete_state (save st d) u"
    | (pushed) x where "st' = set_state (push_link st a x) u s"
    using assms(4) a(1) by (auto simp: case_movie_links_def sa Let_def split: if_splits)
  then show ?thesis using assms(1) 1 2 by cases simp_all
qed

subsection \<open>The counter and the array in the episode loop\<close>

lemma counter_ok_start: "counter_ok b False (Some (Num 1)) cnt []"
  unfolding counter_ok_def
  by (intro exI[where x = 1] exI[where x = "0::nat"]) (simp add: numbers_0)

lemma counter_ok_at_link: "counter_ok b False cur cnt eps \<Longrightarrow> counter_ok b True cur cnt eps"
  unfolding counter_ok_def by blast

text \<open>A \<open>save\<close> that fails leaves one more episode with the number of the counter.\<close>

lemma counter_ok_failed:
  assumes "counter_ok False True cur cnt eps" and "js_ge cur cnt" and "episodeNumber x = cur"
  shows "counter_ok False True cur cnt (eps @ [x])"
proof -
  from assms(1) obtain c k where h: "cur = Some (Num c)" "1 \<le> c" "c \<le> 2 ^ 53"
    "\<forall>n. cnt = Some (Num n) \<longrightarrow> c = 1 \<or> c \<le> n"
    "map episodeNumber eps = numbers (c - 1) @ replicate k (Some (Num c))"
    unfolding counter_ok_def by blast
  have "map episodeNumber (eps @ [x]) = numbers (c - 1) @ replicate (Suc k) (Some (Num c))"
    using h(5) assms(3) h(1) by (simp add: replicate_append_same)
  then show ?thesis
    unfolding counter_ok_def using h(1-4) assms(2) by blast
qed

text \<open>The step to the next episode.\<close>

lemma counter_ok_next:
  assumes "counter_ok b True cur cnt eps" and "\<not> js_ge cur cnt" and "episodeNumber x = cur"
  shows "counter_ok b False (Some (js_add1 cur)) cnt (eps @ [x])"
proof -
  from assms(1) obtain c k where h: "cur = Some (Num c)" "1 \<le> c" "c \<le> 2 ^ 53"
    "\<forall>n. cnt = Some (Num n) \<longrightarrow> c = 1 \<or> c \<le> n"
    "map episodeNumber eps = numbers (c - 1) @ replicate k (Some (Num c))"
    "0 < k \<longrightarrow> True \<and> \<not> b \<and> js_ge cur cnt \<or> c = 2 ^ 53 \<and> \<not> js_ge cur cnt"
    unfolding counter_ok_def by blast
  have below: "\<forall>n. cnt = Some (Num n) \<longrightarrow> c < n"
    using assms(2) h(1) by (auto simp: js_ge_def to_number_def)
  show ?thesis
  proof (cases "c < 2 ^ 53")
    case True
    then have k: "k = 0" using h(6) assms(2) by auto
    have cur': "js_add1 cur = Num (c + 1)" using h(1,2) True by (simp add: js_add1_exact)
    have "map episodeNumber (eps @ [x]) = numbers (c + 1 - 1) @ replicate 0 (Some (Num (c + 1)))"
      using h(5) k assms(3) h(1,2) by (simp add: numbers_snoc)
    moreover have "\<forall>n. cnt = Some (Num n) \<longrightarrow> c + 1 = 1 \<or> c + 1 \<le> n" using below by auto
    moreover have "1 \<le> c + 1" "c + 1 \<le> 2 ^ 53" using h(2) True by auto
    ultimately show ?thesis unfolding counter_ok_def cur' by blast
  next
    case False
    then have c: "c = 2 ^ 53" using h(3) by simp
    then have cur': "Some (js_add1 cur) = cur" using h(1) js_add1_stuck by simp
    have "map episodeNumber (eps @ [x]) = numbers (c - 1) @ replicate (Suc k) (Some (Num c))"
      using h(5) assms(3) h(1) by (simp add: replicate_append_same)
    moreover have "c = 2 ^ 53 \<and> \<not> js_ge cur cnt" using c assms(2) by simp
    ultimately show ?thesis unfolding counter_ok_def cur' using h(1-4) by blast
  qed
qed

text \<open>With no failed \<open>save\<close>, the last episode completes the numbers up to the count.\<close>

lemma counter_ok_last:
  assumes "counter_ok True True cur cnt eps" and "js_ge cur cnt" and "cnt = Some (Num n)"
    and "1 \<le> n" and "episodeNumber x = cur"
  shows "map episodeNumber (eps @ [x]) = numbers n"
proof -
  from assms(1) obtain c k where h: "cur = Some (Num c)" "1 \<le> c"
    "\<forall>n. cnt = Some (Num n) \<longrightarrow> c = 1 \<or> c \<le> n"
    "map episodeNumber eps = numbers (c - 1) @ replicate k (Some (Num c))"
    "0 < k \<longrightarrow> True \<and> \<not> True \<and> js_ge cur cnt \<or> c = 2 ^ 53 \<and> \<not> js_ge cur cnt"
    unfolding counter_ok_def by blast
  have k: "k = 0" using h(5) assms(2) by auto
  have "n \<le> c" using assms(2,3) h(1) by (simp add: js_ge_def to_number_def)
  then have "c = n" using h(3) assms(3,4) by auto
  then show ?thesis using h(4) k h(1,2) assms(5) by (simp add: numbers_snoc)
qed

text \<open>The array has at least the episodes before the counter's.\<close>

lemma counter_ok_length:
  assumes "counter_ok b l cur cnt eps"
  shows "\<exists>c. cur = Some (Num c) \<and> 1 \<le> c \<and> c - 1 \<le> int (length eps)"
proof -
  from assms obtain c k where h: "cur = Some (Num c)" "1 \<le> c"
    "map episodeNumber eps = numbers (c - 1) @ replicate k (Some (Num c))"
    unfolding counter_ok_def by blast
  have "length eps = length (numbers (c - 1) @ replicate k (Some (Num c)))"
    using h(3) by (metis length_map)
  then have "int (length eps) = c - 1 + int k" using h(2) length_numbers[of "c - 1"] by simp
  then show ?thesis using h(1,2) by simp
qed

subsection \<open>The cases of the episode loop keep the invariant\<close>

lemma ok_episode_count:
  "session_ok b st s \<Longrightarrow> step s = Episode_count \<Longrightarrow>
   session_ok b st (s\<lparr>episodeCount := Some n, currentEpisode := Some (Num 1),
                       step := Episode_title\<rparr>)"
  by (cases "type s") (auto simp: session_ok_def after_thumbnail_def counter_ok_start)

lemma inv_case_episode_count:
  assumes "inv b st" and "userStates st u = Some s" and "step s = Episode_count"
  shows "inv b (fst (case_episode_count st u s m))"
  using assms
  by (auto simp: case_episode_count_def
      intro!: inv_set_state[where s = s] ok_episode_count dest: inv_session_ok)

lemma ok_episode_title:
  "session_ok b st s \<Longrightarrow> step s = Episode_title \<Longrightarrow>
   session_ok b st (s\<lparr>currentEpisodeTitle := t, step := Episode_link\<rparr>)"
  by (cases "type s") (auto simp: session_ok_def after_thumbnail_def counter_ok_at_link)

lemma inv_case_episode_title:
  assumes "inv b st" and "userStates st u = Some s" and "step s = Episode_title"
  shows "inv b (fst (case_episode_title st u s m))"
  using assms
  by (auto simp: case_episode_title_def
      intro!: inv_set_state[where s = s] ok_episode_title dest: inv_session_ok)

text \<open>What the invariant says of a session at \<open>episode_link\<close>.\<close>

lemma episode_link_session:
  assumes "session_ok b st s" and "step s = Episode_link"
  shows "\<exists>a. type s = Webseries \<and> episodes s = Some a \<and> a < next_addr st \<and>
    counter_ok b True (currentEpisode s) (episodeCount s) (episode_arrays st a) \<and>
    truthy (title s) \<and> thumbnail s \<noteq> None"
  using assms by (cases "type s") (auto simp: session_ok_def after_thumbnail_def)

lemma session_ok_linkI:
  assumes "type s = Webseries" "step s = Episode_link" "episodes s = Some a" "a < next_addr st"
    "counter_ok b True (currentEpisode s) (episodeCount s) (episode_arrays st a)"
    "truthy (title s)" "thumbnail s \<noteq> None"
  shows "session_ok b st s"
  using assms by (simp add: session_ok_def after_thumbnail_def)

lemma session_ok_titleI:
  assumes "type s = Webseries" "step s = Episode_title" "episodes s = Some a" "a < next_addr st"
    "counter_ok b False (currentEpisode s) (episodeCount s) (episode_arrays st a)"
    "truthy (title s)" "thumbnail s \<noteq> None"
  shows "session_ok b st s"
  using assms by (simp add: session_ok_def after_thumbnail_def)

lemma inv_case_episode_link:
  assumes i: "inv b st" and old: "userStates st u = Some s" and stp: "step s = Episode_link"
    and sv: "b \<longrightarrow> save_ok e"
  shows "inv b (fst (case_episode_link st e u s m))"
proof (cases "truthy (msg_text m)")
  case False
  then show ?thesis using i by (simp add: case_episode_link_def)
next
  case True
  have ok: "session_ok b st s" using i old by (rule inv_session_ok)
  from episode_link_session[OF ok stp] obtain a where h: "type s = Webseries"
    "episodes s = Some a" "a < next_addr st"
    "counter_ok b True (currentEpisode s) (episodeCount s) (episode_arrays st a)"
    "truthy (title s)" "thumbnail s \<noteq> None"
    by blast
  define x where "x = \<lparr>episodeNumber = currentEpisode s, episode_title = currentEpisodeTitle s,
                        streamingLink = the (msg_text m)\<rparr>"
  define st2 where "st2 = push_episode st a x"
  have arr: "episode_arrays st2 a = episode_arrays st a @ [x]" "episodeNumber x = currentEpisode s"
    by (simp_all add: st2_def push_episode_def x_def)
  show ?thesis
  proof (cases "js_ge (currentEpisode s) (episodeCount s)")
    case ge: True
    show ?thesis
    proof (cases "save_ok e")
      case True
      have "inv b (delete_state (save st2 (series_of s (episode_arrays st2 a))) u)"
      proof (rule inv_persisted[OF i, where u = u])
        fix v t a'
        assume "v \<noteq> u" "userStates st v = Some t" "episodes t = Some a'"
        then have "a' \<noteq> a" using inv_no_alias[OF i _ _ old, of v t a'] h(2) by auto
        then show "episode_arrays (delete_state (save st2 (series_of s (episode_arrays st2 a))) u) a'
                   = episode_arrays st a'"
          by (simp add: delete_state_def save_def st2_def push_episode_def)
      qed (simp_all add: delete_state_def save_def st2_def push_episode_def)
      then show ?thesis using \<open>truthy (msg_text m)\<close> ge True h(2)
        by (simp add: case_episode_link_def st2_def x_def Let_def)
    next
      case False
      then have nb: "\<not> b" using sv by simp
      have "inv b st2"
      proof (rule inv_update[OF i old])
        fix s' assume "userStates st2 u = Some s'"
        then have "s' = s" using old by (simp add: st2_def push_episode_def)
        moreover have "session_ok b st2 s"
        proof (rule session_ok_linkI[where a = a])
          show "counter_ok b True (currentEpisode s) (episodeCount s) (episode_arrays st2 a)"
            using counter_ok_failed[OF _ ge arr(2)] h(4) nb by (simp add: arr(1))
          show "a < next_addr st2" using h(3) by (simp add: st2_def push_episode_def)
        qed (use h stp in simp_all)
        ultimately show "session_ok b st2 s' \<and> episodes s' = episodes s" by simp
      qed (simp_all add: st2_def push_episode_def h(2))
      then show ?thesis using \<open>truthy (msg_text m)\<close> ge False h(2)
        by (simp add: case_episode_link_def st2_def x_def Let_def)
    qed
  next
    case nge: False
    define s' where "s' = s\<lparr>episodes := Some a,
                 currentEpisode := Some (js_add1 (currentEpisode s)), step := Episode_title\<rparr>"
    have "inv b (set_state st2 u s')"
    proof (rule inv_update[OF i old])
      fix t assume "userStates (set_state st2 u s') u = Some t"
      then have "t = s'" by (simp add: set_state_def)
      moreover have "session_ok b (set_state st2 u s') s'"
      proof (rule session_ok_titleI[where a = a])
        show "counter_ok b False (currentEpisode s') (episodeCount s')
                (episode_arrays (set_state st2 u s') a)"
          using counter_ok_next[OF h(4) nge arr(2)]
          by (simp add: s'_def set_state_def arr(1))
        show "a < next_addr (set_state st2 u s')"
          using h(3) by (simp add: set_state_def st2_def push_episode_def)
      qed (use h in \<open>simp_all add: s'_def\<close>)
      ultimately show "session_ok b (set_state st2 u s') t \<and> episodes t = episodes s"
        by (simp add: s'_def h(2))
    qed (simp_all add: set_state_def st2_def push_episode_def h(2))
    then show ?thesis using \<open>truthy (msg_text m)\<close> nge h(2)
      by (simp add: case_episode_link_def st2_def x_def s'_def Let_def)
  qed
qed

lemma inv_on_message:
  assumes "inv b st" and "b \<longrightarrow> save_ok e" and "on_message st e u m = Inr (st', rs)"
  shows "inv b st'"
proof (cases "userStates st u")
  case None
  then show ?thesis using assms by (simp add: on_message_def)
next
  case (Some s)
  show ?thesis
  proof (cases "step s")
    case Title
    then show ?thesis
      using assms Some inv_case_title[OF assms(1) Some, of m] by (auto simp: on_message_def)
  next
    case Thumbnail
    then show ?thesis
      using assms Some inv_case_thumbnail[OF assms(1) Some, of e m] by (auto simp: on_message_def)
  next
    case Movie_links
    then show ?thesis
      using assms Some inv_case_movie_links[OF assms(1) Some, of e m st' rs]
      by (auto simp: on_message_def)
  next
    case Episode_count
    then show ?thesis
      using assms Some inv_case_episode_count[OF assms(1) Some, of m]
      by (auto simp: on_message_def)
  next
    case Episode_title
    then show ?thesis
      using assms Some inv_case_episode_title[OF assms(1) Some, of m]
      by (auto simp: on_message_def)
  next
    case Episode_link
    then show ?thesis
      using assms Some inv_case_episode_link[OF assms(1) Some _ assms(2), of m]
      by (auto simp: on_message_def)
  qed
qed

lemma inv_handle_update:
  assumes "inv b st" and "b \<longrightarrow> save_ok e" and "handle_update st e upd = Inr (st', rs)"
  shows "inv b st'"
proof (cases upd)
  case (Add_movie u)
  then show ?thesis using assms inv_add_movie[OF assms(1), of u] by (auto simp: handle_update_def)
next
  case (Add_web_series u)
  then show ?thesis
    using assms inv_add_web_series[OF assms(1), of u] by (auto simp: handle_update_def)
next
  case (Message u m)
  then show ?thesis using assms inv_on_message by (auto simp: handle_update_def)
qed (use assms in \<open>auto simp: handle_update_def\<close>)

lemma inv_run:
  "inv b st \<Longrightarrow> b \<longrightarrow> no_save_fails evs \<Longrightarrow> run st evs = Inr st' \<Longrightarrow> inv b st'"
proof (induction evs arbitrary: st)
  case Nil
  then show ?case by simp
next
  case (Cons ev evs)
  obtain e upd where ev: "ev = (e, upd)" by (cases ev)
  from Cons.prems(3) obtain st1 rs where h: "handle_update st e upd = Inr (st1, rs)"
    "run st1 evs = Inr st'"
    by (auto simp: ev split: sum.splits)
  have "inv b st1"
    using Cons.prems(1) _ h(1)
    by (rule inv_handle_update) (use Cons.prems(2) in \<open>simp add: ev no_save_fails_def\<close>)
  then show ?case using Cons.IH[of st1] Cons.prems(2) h(2) by (simp add: no_save_fails_def)
qed

lemma inv_reachable: "initial st0 \<Longrightarrow> run st0 evs = Inr st \<Longrightarrow> inv False st"
  using inv_run[of False st0 evs st] inv_initial by simp

lemma inv_reachable_strict:
  "initial st0 \<Longrightarrow> no_save_fails evs \<Longrightarrow> run st0 evs = Inr st \<Longrightarrow> inv True st"
  using inv_run[of True st0 evs st] inv_initial by simp

section \<open>Unfolding the model on concrete inputs\<close>

lemmas handler_defs =
  handle_update_def on_message_def add_movie_def add_web_series_def
  case_title_def case_thumbnail_def case_movie_links_def case_episode_count_def
  case_episode_title_def case_episode_link_def set_state_def delete_state_def
  new_links_def new_episodes_def push_link_def push_episode_def save_def movie_of_def
  series_of_def truthy_def js_ge_def js_add1_def to_number_def to_double_small Let_def

lemmas input_defs =
  start_state_def text_message_def photo_message_def env_ok_def env_save_fails_def
  state_after_def str_def movie_with_one_link_def series_before_count_def
  series_at_last_link_def series_of_two_at_last_link_def series_of_none_at_link_def

section \<open>Persisting a record and the sessions\<close>

lemma on_message_no_session: "userStates st u = None \<Longrightarrow> on_message st e u m = Inr (st, [])"
  by (simp add: on_message_def)

lemma contents_case_title: "contents (fst (case_title st u s m)) = contents st"
  by (simp add: case_title_def set_state_def)

lemma contents_case_thumbnail: "contents (fst (case_thumbnail st e u s m)) = contents st"
  by (simp add: case_thumbnail_def set_state_def split: option.splits)

lemma contents_case_episode_count: "contents (fst (case_episode_count st u s m)) = contents st"
  by (simp add: case_episode_count_def set_state_def)

lemma contents_case_episode_title: "contents (fst (case_episode_title st u s m)) = contents st"
  by (simp add: case_episode_title_def set_state_def)

lemma case_movie_links_persist:
  assumes "case_movie_links st e u s m = Inr (st', rs)" and "contents st' \<noteq> contents st"
  shows "userStates st' u = None \<and> contents st' = contents st @ [movie_of st s] \<and> save_ok e \<and>
         msg_text m = Some (str ''/done'')"
  using assms
  by (auto simp: case_movie_links_def set_state_def delete_state_def save_def push_link_def
      new_links_def Let_def split: if_splits option.splits)

lemma case_episode_link_persist:
  assumes "case_episode_link st e u s m = (st', rs)" and "contents st' \<noteq> contents st"
  shows "userStates st' u = None \<and> save_ok e \<and> truthy (msg_text m) \<and>
         js_ge (currentEpisode s) (episodeCount s) \<and>
         (\<exists>eps. contents st' = contents st @ [series_of s eps])"
  using assms
  by (auto simp: case_episode_link_def set_state_def delete_state_def save_def push_episode_def
      new_episodes_def Let_def split: if_splits option.splits)

text \<open>A handler that has added a document has also deleted the sender's session.\<close>

lemma on_message_persist:
  assumes "on_message st e u m = Inr (st', rs)" and "contents st' \<noteq> contents st"
  shows "userStates st' u = None"
proof -
  from assms obtain s where s: "userStates st u = Some s"
    by (cases "userStates st u") (auto simp: on_message_def)
  show ?thesis
  proof (cases "step s")
    case Title
    then show ?thesis using assms s contents_case_title[of st u s m] by (auto simp: on_message_def)
  next
    case Thumbnail
    then show ?thesis
      using assms s contents_case_thumbnail[of st e u s m] by (auto simp: on_message_def)
  next
    case Movie_links
    then show ?thesis using assms s case_movie_links_persist by (auto simp: on_message_def)
  next
    case Episode_count
    then show ?thesis
      using assms s contents_case_episode_count[of st u s m] by (auto simp: on_message_def)
  next
    case Episode_title
    then show ?thesis
      using assms s contents_case_episode_title[of st u s m] by (auto simp: on_message_def)
  next
    case Episode_link
    then show ?thesis
      using assms s case_episode_link_persist[of st e u s m st' rs] by (auto simp: on_message_def)
  qed
qed

lemma contents_add: "contents (fst (add_movie st u)) = contents st"
  "contents (fst (add_web_series st u)) = contents st"
  by (simp_all add: add_movie_def add_web_series_def new_links_def new_episodes_def set_state_def)

text \<open>
  Claim C6. When handling an update has added a record to the collection (a movie or a
  series), the update was a message and its sender has no session afterwards: looking
  the user up in \<open>userStates\<close> gives nothing. And a message that reaches the state guard
  of \<open>bot.on('message')\<close> while its sender has no session changes nothing and is answered
  with nothing.
\<close>

theorem no_session_after_persist:
  "(handle_update st e upd = Inr (st', rs) \<and> contents st' \<noteq> contents st \<longrightarrow>
      (\<exists>u m. upd = Message u m \<and> userStates st' u = None)) \<and>
   (userStates st u = None \<longrightarrow> handle_update st e (Message u m) = Inr (st, []))"
proof (intro conjI impI)
  assume h: "handle_update st e upd = Inr (st', rs) \<and> contents st' \<noteq> contents st"
  show "\<exists>u m. upd = Message u m \<and> userStates st' u = None"
  proof (cases upd)
    case (Add_movie u)
    then show ?thesis using h contents_add(1)[of st u] by (auto simp: handle_update_def)
  next
    case (Add_web_series u)
    then show ?thesis using h contents_add(2)[of st u] by (auto simp: handle_update_def)
  next
    case (Message u m)
    then show ?thesis using h on_message_persist[of st e u m st' rs] by (simp add: handle_update_def)
  qed (use h in \<open>auto simp: handle_update_def\<close>)
next
  assume "userStates st u = None"
  then show "handle_update st e (Message u m) = Inr (st, [])"
    by (simp add: handle_update_def on_message_no_session)
qed

lemma state_movie_with_one_link:
  "userStates (state_after movie_with_one_link) 7 =
     Some \<lparr>type = Movie, step = Movie_links, title = Some (str ''Test''),
           thumbnail = Some (str ''/thumbnails/thumbnail_1.jpg''), streamingLinks = Some 0,
           episodes = None, episodeCount = None, currentEpisode = None,
           currentEpisodeTitle = None\<rparr>"
  "link_arrays (state_after movie_with_one_link) 0 = [str ''http://a'']"
  "contents (state_after movie_with_one_link) = []"
  by (simp_all add: handler_defs input_defs)

text \<open>
  The \<open>/done\<close> of user 7 persists the movie; the session is gone, and a further message
  is ignored.
\<close>

theorem no_session_after_persist_witness:
  "contents (state_after (movie_with_one_link @ [(env_ok, Message 7 (text_message ''/done''))]))
     \<noteq> contents (state_after movie_with_one_link) \<and>
   userStates (state_after (movie_with_one_link @ [(env_ok, Message 7 (text_message ''/done''))])) 7
     = None \<and>
   handle_update (state_after (movie_with_one_link @ [(env_ok, Message 7 (text_message ''/done''))]))
       env_ok (Message 7 (text_message ''again''))
     = Inr (state_after (movie_with_one_link @ [(env_ok, Message 7 (text_message ''/done''))]), [])"
proof -
  let ?S = "state_after movie_with_one_link"
  let ?S' = "state_after (movie_with_one_link @ [(env_ok, Message 7 (text_message ''/done''))])"
  have step: "handle_update ?S env_ok (Message 7 (text_message ''/done'')) = Inr (?S', [Movie_added])"
    by (simp add: handler_defs input_defs)
  have changed: "contents ?S' \<noteq> contents ?S"
    by (simp add: handler_defs input_defs)
  from no_session_after_persist[of ?S env_ok "Message 7 (text_message ''/done'')" ?S'
      "[Movie_added]"] step changed
  have gone: "userStates ?S' 7 = None" by auto
  from no_session_after_persist[of ?S' env_ok _ _ _ 7 "text_message ''again''"] gone
  have "handle_update ?S' env_ok (Message 7 (text_message ''again'')) = Inr (?S', [])"
    by blast
  then show ?thesis using changed gone by simp
qed

text \<open>
  Claim C4, as amended. At a persist point (\<open>/done\<close> at \<open>movie_links\<close> with at least one
  link, or a text at \<open>episode_link\<close> when \<open>currentEpisode >= episodeCount\<close>) the handler
  returns normally. If \<open>save\<close> succeeds one record is added and the sender's session is
  deleted. If \<open>save\<close> fails the session is kept as it was, nothing is added, and the
  answer is the error message that asks to try again.
\<close>

theorem persist_point_outcome:
  assumes "userStates st u = Some s"
    and "step s = Movie_links \<and> msg_text m = Some (str ''/done'') \<and>
           (\<exists>a. streamingLinks s = Some a \<and> link_arrays st a \<noteq> [])
         \<or> step s = Episode_link \<and> truthy (msg_text m) \<and>
           js_ge (currentEpisode s) (episodeCount s)"
  shows "\<exists>st' rs. on_message st e u m = Inr (st', rs) \<and>
           (save_ok e \<longrightarrow> userStates st' u = None \<and> (\<exists>d. contents st' = contents st @ [d])) \<and>
           (\<not> save_ok e \<longrightarrow> userStates st' u = Some s \<and> contents st' = contents st \<and>
              (rs = [Error_saving_movie] \<or> rs = [Error_saving_series]))"
  using assms(2)
proof (elim disjE conjE exE)
  fix a
  assume "step s = Movie_links" "msg_text m = Some (str ''/done'')" "streamingLinks s = Some a"
    "link_arrays st a \<noteq> []"
  then show ?thesis using assms(1)
    by (simp add: on_message_def case_movie_links_def delete_state_def save_def)
next
  assume "step s = Episode_link" "truthy (msg_text m)" "js_ge (currentEpisode s) (episodeCount s)"
  then show ?thesis using assms(1)
    by (cases "episodes s")
      (simp_all add: on_message_def case_episode_link_def delete_state_def save_def
        push_episode_def new_episodes_def Let_def)
qed

text \<open>The two outcomes on the movie session of user 7, with its one link.\<close>

theorem persist_point_outcome_witness:
  "map_sum id (\<lambda>r. (map_option step (userStates (fst r) 7), length (contents (fst r)), snd r))
     (on_message (state_after movie_with_one_link) env_ok 7 (text_message ''/done''))
     = Inr (None, 1, [Movie_added]) \<and>
   map_sum id (\<lambda>r. (map_option step (userStates (fst r) 7), length (contents (fst r)), snd r))
     (on_message (state_after movie_with_one_link) env_save_fails 7 (text_message ''/done''))
     = Inr (Some Movie_links, 0, [Error_saving_movie])"
proof -
  let ?S = "state_after movie_with_one_link"
  let ?s = "\<lparr>type = Movie, step = Movie_links, title = Some (str ''Test''),
           thumbnail = Some (str ''/thumbnails/thumbnail_1.jpg''), streamingLinks = Some 0,
           episodes = None, episodeCount = None, currentEpisode = None,
           currentEpisodeTitle = None\<rparr>"
  have s: "userStates ?S 7 = Some ?s" by (rule state_movie_with_one_link(1))
  have p: "step ?s = Movie_links \<and> msg_text (text_message ''/done'') = Some (str ''/done'') \<and>
           (\<exists>a. streamingLinks ?s = Some a \<and> link_arrays ?S a \<noteq> [])
         \<or> step ?s = Episode_link \<and> truthy (msg_text (text_message ''/done'')) \<and>
           js_ge (currentEpisode ?s) (episodeCount ?s)"
    by (simp add: state_movie_with_one_link(2) text_message_def)
  from persist_point_outcome[OF s p, of env_ok] persist_point_outcome[OF s p, of env_save_fails]
  show ?thesis
    by (simp add: handler_defs input_defs)
qed

text \<open>
  Claim C4 as stated fails: \<open>save\<close> fails on \<open>/done\<close>, and the session of user 7 is still
  there, at \<open>movie_links\<close>.
\<close>

theorem session_kept_when_save_fails:
  "map_sum id (\<lambda>r. map_option step (userStates (fst r) 7))
     (on_message (state_after movie_with_one_link) env_save_fails 7 (text_message ''/done''))
   = Inr (Some Movie_links)"
  by (simp add: handler_defs input_defs)

section \<open>Inputs a step does not expect\<close>

text \<open>
  Claim C7 fails on the code at its own example. User 7 has just opened a movie session,
  which is at \<open>title\<close>, and sends a photo with no text: the case \<open>title\<close> has no \<open>else\<close>
  branch, so the state is unchanged and nothing is replied. The cases \<open>thumbnail\<close>,
  \<open>episode_count\<close> and \<open>episode_link\<close> do reprompt in their \<open>else\<close> branches.
\<close>

theorem photo_at_title_gets_no_reply:
  "on_message (state_after [(env_ok, Add_movie 7)]) env_ok 7 photo_message
   = Inr (state_after [(env_ok, Add_movie 7)], []) \<and>
   map_option step (userStates (state_after [(env_ok, Add_movie 7)]) 7) = Some Title"
  by (simp add: handler_defs input_defs)

section \<open>Reading one record\<close>



section \<open>The step \<open>episode_count\<close>\<close>

text \<open>
  Claim C2, as amended. At \<open>episode_count\<close> a message is accepted exactly when its text
  is not empty and \<open>isNaN\<close> is false of it, that is when \<open>Number(text)\<close> is a number; no
  test for a positive integer is made. On acceptance \<open>episodeCount\<close> is \<open>parseInt(text)\<close>,
  \<open>currentEpisode\<close> is 1 and the step is \<open>episode_title\<close>. On any other message (no text,
  an empty text, a text that is not numeric) the state is unchanged and the bot asks for
  a valid number. A non-empty string of decimal digits is accepted, and \<open>episodeCount\<close>
  is then the double of its value: the value itself up to \<open>2^53\<close>.
\<close>

theorem episode_count_accepts_numeric_text:
  assumes "userStates st u = Some s" and "step s = Episode_count"
  shows "(\<forall>t. msg_text m = Some t \<and> t \<noteq> [] \<and> \<not> isNaN t \<longrightarrow>
            on_message st e u m =
              Inr (set_state st u (s\<lparr>episodeCount := Some (parseInt t),
                                     currentEpisode := Some (Num 1), step := Episode_title\<rparr>),
                   [Starting_with_episode_1])) \<and>
         (msg_text m = None \<or> msg_text m = Some [] \<or> (\<exists>t. msg_text m = Some t \<and> isNaN t) \<longrightarrow>
            on_message st e u m = Inr (st, [Send_a_valid_number])) \<and>
         (\<forall>t. t \<noteq> [] \<and> list_all is_digit t \<longrightarrow>
            \<not> isNaN t \<and> parseInt t = to_double (digits_value 10 t) \<and>
            (digits_value 10 t \<le> 2 ^ 53 \<longrightarrow> parseInt t = Num (digits_value 10 t)))"
  using assms
  by (auto simp: on_message_def case_episode_count_def truthy_def all_digits_not_NaN
      all_digits_parseInt to_double_exact digits_value_nonneg)

lemma state_series_before_count:
  "userStates (state_after series_before_count) 7 =
     Some \<lparr>type = Webseries, step = Episode_count, title = Some (str ''S1''),
           thumbnail = Some (str ''/thumbnails/thumbnail_1.jpg''), streamingLinks = None,
           episodes = Some 0, episodeCount = None, currentEpisode = None,
           currentEpisodeTitle = None\<rparr>"
  "episode_arrays (state_after series_before_count) 0 = []"
  "contents (state_after series_before_count) = []"
  by (simp_all add: handler_defs input_defs)

lemmas number_defs =
  isNaN_def is_StringNumericLiteral_def trim_def is_white_space_def is_StrDecimalLiteral_def
  is_StrUnsignedDecimalLiteral_def is_NonDecimalIntegerLiteral_def is_sign_def is_digit_def
  exponent_opt_def parseInt_def is_radix_digit_def digit_value_def digits_value_def
  to_double_small

text \<open>
  The text \<open>12\<close> is accepted with \<open>episodeCount = 12\<close>; the text \<open>twelve\<close> is not; the text
  \<open>9007199254740993\<close>, which is \<open>2^53 + 1\<close>, is accepted with the double \<open>2^53\<close>; and four
  hundred nines parse to \<open>Infinity\<close>.
\<close>

theorem episode_count_accepts_numeric_text_witness:
  "map_sum id (\<lambda>r. (map_option (\<lambda>s. (step s, episodeCount s, currentEpisode s))
                       (userStates (fst r) 7), snd r))
     (on_message (state_after series_before_count) env_ok 7 (text_message ''12''))
   = Inr (Some (Episode_title, Some (Num 12), Some (Num 1)), [Starting_with_episode_1]) \<and>
   on_message (state_after series_before_count) env_ok 7 (text_message ''twelve'')
   = Inr (state_after series_before_count, [Send_a_valid_number]) \<and>
   map_sum id (\<lambda>r. (map_option (\<lambda>s. (step s, episodeCount s, currentEpisode s))
                       (userStates (fst r) 7), snd r))
     (on_message (state_after series_before_count) env_ok 7 (text_message ''9007199254740993''))
   = Inr (Some (Episode_title, Some (Num 9007199254740992), Some (Num 1)),
          [Starting_with_episode_1]) \<and>
   \<not> isNaN (replicate 400 57) \<and> parseInt (replicate 400 57) = Infinity"
proof -
  let ?S = "state_after series_before_count"
  have d: "str ''12'' \<noteq> [] \<and> list_all is_digit (str ''12'')"
    by (simp add: str_def is_digit_def)
  have v: "digits_value 10 (str ''12'') = 12"
    by (simp add: str_def digits_value_def digit_value_def)
  have n: "isNaN (str ''twelve'')" by (simp add: str_def number_defs)
  have d2: "str ''9007199254740993'' \<noteq> [] \<and> list_all is_digit (str ''9007199254740993'')"
    by (simp add: str_def is_digit_def)
  have v2: "digits_value 10 (str ''9007199254740993'') = 9007199254740993"
    by (simp add: str_def digits_value_def digit_value_def)
  have d3: "replicate 400 57 \<noteq> [] \<and> list_all is_digit (replicate 400 57)"
    by (simp add: is_digit_def list_all_iff)
  have v3: "to_double (digits_value 10 (replicate 400 57)) = Infinity"
    by (simp add: digits_value_nines to_double_def)
  note t = episode_count_accepts_numeric_text[OF state_series_before_count(1), simplified]
  from t[of "text_message ''12''" env_ok] d v
  have 1: "on_message ?S env_ok 7 (text_message ''12'') =
          Inr (set_state ?S 7 (\<lparr>type = Webseries, step = Episode_title, title = Some (str ''S1''),
           thumbnail = Some (str ''/thumbnails/thumbnail_1.jpg''), streamingLinks = None,
           episodes = Some 0, episodeCount = Some (Num 12), currentEpisode = Some (Num 1),
           currentEpisodeTitle = None\<rparr>), [Starting_with_episode_1])"
    by (simp add: text_message_def to_double_small)
  from t[of "text_message ''twelve''" env_ok] n
  have 2: "on_message ?S env_ok 7 (text_message ''twelve'') = Inr (?S, [Send_a_valid_number])"
    by (simp add: text_message_def)
  from t[of "text_message ''9007199254740993''" env_ok] d2 v2 to_double_2_53_plus_1
  have 3: "on_message ?S env_ok 7 (text_message ''9007199254740993'') =
          Inr (set_state ?S 7 (\<lparr>type = Webseries, step = Episode_title, title = Some (str ''S1''),
           thumbnail = Some (str ''/thumbnails/thumbnail_1.jpg''), streamingLinks = None,
           episodes = Some 0, episodeCount = Some (Num 9007199254740992),
           currentEpisode = Some (Num 1), currentEpisodeTitle = None\<rparr>),
          [Starting_with_episode_1])"
    by (simp add: text_message_def)
  from t[of "text_message ''12''" env_ok] d3 v3
  have 4: "\<not> isNaN (replicate 400 57) \<and> parseInt (replicate 400 57) = Infinity"
    by simp
  from 1 2 3 4 show ?thesis by (simp add: set_state_def)
qed

text \<open>
  Claim C2 as stated fails: the text \<open>0\<close> does not parse as a positive integer, and it is
  accepted, with \<open>episodeCount = 0\<close>.
\<close>

theorem zero_is_accepted_at_episode_count:
  "map_sum id (\<lambda>r. (map_option (\<lambda>s. (step s, episodeCount s, currentEpisode s))
                       (userStates (fst r) 7), snd r))
     (on_message (state_after series_before_count) env_ok 7 (text_message ''0''))
   = Inr (Some (Episode_title, Some (Num 0), Some (Num 1)), [Starting_with_episode_1])"
  by (simp add: handler_defs input_defs number_defs)

section \<open>Movie records\<close>

lemma movie_record_links:
  assumes "case_movie_links st e u s m = Inr (st', rs)" and "contents st' \<noteq> contents st"
  shows "doc_streamingLinks (movie_of st s) \<noteq> []"
  using assms
  by (auto simp: case_movie_links_def set_state_def delete_state_def save_def push_link_def
      new_links_def movie_of_def Let_def split: if_splits option.splits)

lemma episode_link_is_series:
  "session_ok b st s \<Longrightarrow> step s = Episode_link \<Longrightarrow> type s = Webseries"
  by (cases "type s") (auto simp: session_ok_def)

lemma persist_is_message:
  assumes "handle_update st e upd = Inr (st', rs)" and "contents st' \<noteq> contents st"
  shows "\<exists>u m. upd = Message u m"
proof (cases upd)
  case (Add_movie u)
  then show ?thesis using assms contents_add(1)[of st u] by (auto simp: handle_update_def)
next
  case (Add_web_series u)
  then show ?thesis using assms contents_add(2)[of st u] by (auto simp: handle_update_def)
qed (use assms in \<open>auto simp: handle_update_def\<close>)

text \<open>One update adds at most one record, and a movie it adds has a link.\<close>

lemma handle_update_adds:
  assumes i: "inv b st" and h: "handle_update st e upd = Inr (st', rs)"
  shows "\<exists>ds. contents st' = contents st @ ds \<and>
          (\<forall>d\<in>set ds. doc_type d = Movie \<longrightarrow> doc_streamingLinks d \<noteq> [])"
proof (cases "contents st' = contents st")
  case True
  then show ?thesis by simp
next
  case False
  then obtain u m where upd: "upd = Message u m"
    using persist_is_message[OF h] by blast
  then have om: "on_message st e u m = Inr (st', rs)" using h by (simp add: handle_update_def)
  then obtain s where s: "userStates st u = Some s"
    using False by (cases "userStates st u") (auto simp: on_message_def)
  have ok: "session_ok b st s" using i s by (rule inv_session_ok)
  have "\<exists>d. contents st' = contents st @ [d] \<and> (doc_type d = Movie \<longrightarrow> doc_streamingLinks d \<noteq> [])"
  proof (cases "step s")
    case Movie_links
    then have c: "case_movie_links st e u s m = Inr (st', rs)" using om s by (simp add: on_message_def)
    show ?thesis
      using case_movie_links_persist[OF c False] movie_record_links[OF c False] by simp
  next
    case Episode_link
    then have c: "case_episode_link st e u s m = (st', rs)" using om s by (simp add: on_message_def)
    have "type s = Webseries" using ok Episode_link by (rule episode_link_is_series)
    then show ?thesis
      using case_episode_link_persist[OF c False] by (auto simp: series_of_def)
  next
    case Title
    then show ?thesis
      using om s False contents_case_title[of st u s m] by (auto simp: on_message_def)
  next
    case Thumbnail
    then show ?thesis
      using om s False contents_case_thumbnail[of st e u s m] by (auto simp: on_message_def)
  next
    case Episode_count
    then show ?thesis
      using om s False contents_case_episode_count[of st u s m] by (auto simp: on_message_def)
  next
    case Episode_title
    then show ?thesis
      using om s False contents_case_episode_title[of st u s m] by (auto simp: on_message_def)
  qed
  then obtain d where "contents st' = contents st @ [d]"
    "doc_type d = Movie \<longrightarrow> doc_streamingLinks d \<noteq> []" by blast
  then show ?thesis by (intro exI[where x = "[d]"]) simp
qed

lemma run_adds:
  "inv False st \<Longrightarrow> run st evs = Inr st' \<Longrightarrow>
   \<exists>ds. contents st' = contents st @ ds \<and>
        (\<forall>d\<in>set ds. doc_type d = Movie \<longrightarrow> doc_streamingLinks d \<noteq> [])"
proof (induction evs arbitrary: st)
  case Nil
  then show ?case by simp
next
  case (Cons ev evs)
  obtain e upd where ev: "ev = (e, upd)" by (cases ev)
  from Cons.prems(2) obtain st1 rs where h: "handle_update st e upd = Inr (st1, rs)"
    "run st1 evs = Inr st'"
    by (auto simp: ev split: sum.splits)
  have i1: "inv False st1" using Cons.prems(1) _ h(1) by (rule inv_handle_update) simp
  from handle_update_adds[OF Cons.prems(1) h(1)]
  obtain d1 where d1: "contents st1 = contents st @ d1"
    "\<forall>d\<in>set d1. doc_type d = Movie \<longrightarrow> doc_streamingLinks d \<noteq> []" by blast
  from Cons.IH[OF i1 h(2)] obtain d2 where d2: "contents st' = contents st1 @ d2"
    "\<forall>d\<in>set d2. doc_type d = Movie \<longrightarrow> doc_streamingLinks d \<noteq> []" by blast
  show ?case using d1 d2 by (intro exI[where x = "d1 @ d2"]) auto
qed

lemma done_without_links:
  assumes "inv b st" and "userStates st u = Some s" and "step s = Movie_links"
    and "\<forall>a. streamingLinks s = Some a \<longrightarrow> link_arrays st a = []"
  shows "on_message st e u \<lparr>msg_text = Some (str ''/done''), msg_photo = p\<rparr>
         = Inr (st, [Add_a_link_first])"
proof -
  have "session_ok b st s" using assms(1,2) by (rule inv_session_ok)
  then obtain a where "streamingLinks s = Some a" using assms(3) movie_links_is_movie by blast
  then show ?thesis using assms(2,3,4) by (simp add: on_message_def case_movie_links_def)
qed

text \<open>
  Claim C5. In every run from a start with no session, each movie record the run has
  persisted has at least one streaming link. And wherever a run has arrived, \<open>/done\<close> from
  a user whose session is at \<open>movie_links\<close> with no link collected leaves the whole
  state as it is (nothing persisted, the session and its step unchanged) and is answered
  with the request to add a link first.
\<close>

theorem movie_record_has_links:
  assumes "initial st0" and "run st0 evs = Inr st"
  shows "(\<forall>d\<in>set (persisted st0 st). doc_type d = Movie \<longrightarrow> doc_streamingLinks d \<noteq> []) \<and>
         (\<forall>u s e p. userStates st u = Some s \<and> step s = Movie_links \<and>
              (\<forall>a. streamingLinks s = Some a \<longrightarrow> link_arrays st a = []) \<longrightarrow>
            handle_update st e (Message u \<lparr>msg_text = Some (str ''/done''), msg_photo = p\<rparr>)
              = Inr (st, [Add_a_link_first]))"
proof -
  have i0: "inv False st0" using assms(1) by (rule inv_initial)
  have i: "inv False st" using assms by (rule inv_reachable)
  from run_adds[OF i0 assms(2)] have
    "\<forall>d\<in>set (persisted st0 st). doc_type d = Movie \<longrightarrow> doc_streamingLinks d \<noteq> []"
    by (auto simp: persisted_def)
  then show ?thesis using done_without_links[OF i] by (simp add: handle_update_def)
qed


lemma initial_start_state: "initial start_state"
  by (simp add: initial_def start_state_def)

text \<open>
  The movie of the specification's first scenario is persisted with its link; \<open>/done\<close>
  before any link changes nothing.
\<close>

theorem movie_record_has_links_witness:
  "persisted start_state
     (state_after (movie_with_one_link @ [(env_ok, Message 7 (text_message ''/done''))]))
     = [a_movie] \<and>
   doc_streamingLinks a_movie \<noteq> [] \<and>
   handle_update (state_after (butlast movie_with_one_link)) env_ok
       (Message 7 (text_message ''/done''))
     = Inr (state_after (butlast movie_with_one_link), [Add_a_link_first])"
proof -
  let ?full = "movie_with_one_link @ [(env_ok, Message 7 (text_message ''/done''))]"
  let ?none = "butlast movie_with_one_link"
  have r1: "run start_state ?full = Inr (state_after ?full)"
    by (simp add: handler_defs input_defs)
  have r2: "run start_state ?none = Inr (state_after ?none)"
    by (simp add: handler_defs input_defs)
  have p: "persisted start_state (state_after ?full) = [a_movie]"
    by (simp add: persisted_def a_movie_def handler_defs input_defs)
  have s: "userStates (state_after ?none) 7 =
     Some \<lparr>type = Movie, step = Movie_links, title = Some (str ''Test''),
           thumbnail = Some (str ''/thumbnails/thumbnail_1.jpg''), streamingLinks = Some 0,
           episodes = None, episodeCount = None, currentEpisode = None,
           currentEpisodeTitle = None\<rparr>"
    "link_arrays (state_after ?none) 0 = []"
    by (simp_all add: handler_defs input_defs)
  from movie_record_has_links[OF initial_start_state r1] p
  have "doc_streamingLinks a_movie \<noteq> []" by (simp add: a_movie_def)
  moreover from movie_record_has_links[OF initial_start_state r2] s
  have "handle_update (state_after ?none) env_ok
          (Message 7 \<lparr>msg_text = Some (str ''/done''), msg_photo = None\<rparr>)
        = Inr (state_after ?none, [Add_a_link_first])"
    by simp
  ultimately show ?thesis using p by (simp add: text_message_def)
qed

section \<open>The steps of a session\<close>

lemma table_refl: "table a a"
  by (cases a) (simp_all add: table_def)

lemma add_movie_states:
  "userStates (fst (add_movie st u)) v =
     (if v = u then Some \<lparr>type = Movie, step = Title, title = None, thumbnail = None,
             streamingLinks = Some (next_addr st), episodes = None, episodeCount = None,
             currentEpisode = None, currentEpisodeTitle = None\<rparr>
      else userStates st v)"
  by (simp add: add_movie_def new_links_def set_state_def)

lemma add_web_series_states:
  "userStates (fst (add_web_series st u)) v =
     (if v = u then Some \<lparr>type = Webseries, step = Title, title = None, thumbnail = None,
             streamingLinks = None, episodes = Some (next_addr st), episodeCount = None,
             currentEpisode = None, currentEpisodeTitle = None\<rparr>
      else userStates st v)"
  by (simp add: add_web_series_def new_episodes_def set_state_def)

lemma on_message_table:
  assumes "on_message st e u m = Inr (st', rs)"
  shows "table (userStates st v) (userStates st' v)"
proof (cases "userStates st u")
  case None
  then show ?thesis using assms by (simp add: on_message_def table_refl)
next
  case (Some s)
  show ?thesis
  proof (cases "v = u")
    case False
    have "userStates st' v = userStates st v"
      using assms Some False
      by (cases "step s")
        (auto simp: on_message_def case_title_def case_thumbnail_def case_movie_links_def
          case_episode_count_def case_episode_title_def case_episode_link_def set_state_def
          delete_state_def save_def push_link_def push_episode_def new_links_def
          new_episodes_def Let_def split: if_splits option.splits)
    then show ?thesis by (simp add: table_refl)
  next
    case True
    show ?thesis
      using assms Some True
      by (cases "step s")
        (auto simp: on_message_def case_title_def case_thumbnail_def case_movie_links_def
          case_episode_count_def case_episode_title_def case_episode_link_def set_state_def
          delete_state_def save_def push_link_def push_episode_def new_links_def
          new_episodes_def Let_def table_def ends_session_def
          split: if_splits option.splits content_type.splits)
  qed
qed


text \<open>The only steps from which a step after \<open>thumbnail\<close> is entered.\<close>

lemma table_after_thumbnail:
  assumes "table a b" and "map_option step b = Some p" and "after_thumbnail p"
  shows "\<exists>q. map_option step a = Some q \<and> (q = Thumbnail \<or> after_thumbnail q)"
proof -
  from assms(2) obtain s' where b: "b = Some s'" "step s' = p" by auto
  show ?thesis
  proof (cases a)
    case None
    then show ?thesis using assms b by (auto simp: table_def after_thumbnail_def)
  next
    case (Some s)
    then have "step s' = step s \<or> next_step (type s) (step s) (step s')"
      using assms(1) b by (simp add: table_def)
    then show ?thesis using Some assms(3) b(2)
      by (cases "step s") (auto simp: after_thumbnail_def)
  qed
qed

lemma handle_update_table:
  assumes "handle_update st e upd = Inr (st', rs)"
  shows "table (userStates st v) (userStates st' v) \<or>
         (upd = Add_movie v \<or> upd = Add_web_series v) \<and>
         map_option step (userStates st' v) = Some Title"
proof (cases upd)
  case (Add_movie u)
  then have "userStates st' v = userStates (fst (add_movie st u)) v"
    using assms by (auto simp: handle_update_def)
  then show ?thesis using Add_movie by (cases "v = u") (simp_all add: add_movie_states table_refl)
next
  case (Add_web_series u)
  then have "userStates st' v = userStates (fst (add_web_series st u)) v"
    using assms by (auto simp: handle_update_def)
  then show ?thesis
    using Add_web_series by (cases "v = u") (simp_all add: add_web_series_states table_refl)
next
  case (Message u m)
  then show ?thesis using assms on_message_table by (simp add: handle_update_def)
qed (use assms in \<open>auto simp: handle_update_def table_refl\<close>)

lemma handle_update_after_thumbnail:
  assumes "handle_update st e upd = Inr (st', rs)"
    and "map_option step (userStates st' v) = Some p" and "after_thumbnail p"
  shows "\<exists>q. map_option step (userStates st v) = Some q \<and> (q = Thumbnail \<or> after_thumbnail q)"
proof -
  from handle_update_table[OF assms(1), of v]
  have "table (userStates st v) (userStates st' v)"
    using assms(2,3) by (auto simp: after_thumbnail_def)
  then show ?thesis using assms(2,3) by (rule table_after_thumbnail)
qed

lemma steps_of_0: "steps_of u st evs ! 0 = map_option step (userStates st u)"
  by (cases evs) auto

lemma steps_of_consecutive:
  "Suc k < length (steps_of u st evs) \<Longrightarrow> steps_of u st evs ! Suc k = Some p \<Longrightarrow>
   after_thumbnail p \<Longrightarrow>
   \<exists>q. steps_of u st evs ! k = Some q \<and> (q = Thumbnail \<or> after_thumbnail q)"
proof (induction evs arbitrary: st k)
  case Nil
  then show ?case by simp
next
  case (Cons ev evs)
  obtain e upd where ev: "ev = (e, upd)" by (cases ev)
  from Cons.prems(1) obtain st1 rs where h: "handle_update st e upd = Inr (st1, rs)"
    by (cases "handle_update st e upd") (auto simp: ev)
  then have eq: "steps_of u st (ev # evs) = map_option step (userStates st u) # steps_of u st1 evs"
    by (simp add: ev)
  show ?case
  proof (cases k)
    case 0
    then have "map_option step (userStates st1 u) = Some p"
      using Cons.prems(2) by (simp add: eq steps_of_0)
    from handle_update_after_thumbnail[OF h this Cons.prems(3)]
    show ?thesis using 0 by (simp add: eq)
  next
    case (Suc k')
    then show ?thesis using Cons.IH[of k' st1] Cons.prems by (simp add: eq)
  qed
qed

lemma steps_of_passed_thumbnail:
  assumes "initial st0"
  shows "k < length (steps_of u st0 evs) \<Longrightarrow> steps_of u st0 evs ! k = Some p \<Longrightarrow>
         after_thumbnail p \<Longrightarrow>
         \<exists>i<k. steps_of u st0 evs ! i = Some Thumbnail \<and>
           (\<forall>j. i < j \<and> j \<le> k \<longrightarrow> (\<exists>q. steps_of u st0 evs ! j = Some q \<and> after_thumbnail q))"
proof (induction k arbitrary: p)
  case 0
  then show ?case using assms by (simp add: steps_of_0 initial_def)
next
  case (Suc k)
  from steps_of_consecutive[OF Suc.prems]
  obtain q where q: "steps_of u st0 evs ! k = Some q" "q = Thumbnail \<or> after_thumbnail q"
    by blast
  show ?case
  proof (cases "q = Thumbnail")
    case True
    have "\<forall>j. k < j \<and> j \<le> Suc k \<longrightarrow> (\<exists>q. steps_of u st0 evs ! j = Some q \<and> after_thumbnail q)"
      using Suc.prems(2,3) by (auto simp: le_Suc_eq)
    then show ?thesis using q(1) True by (intro exI[where x = k]) simp
  next
    case False
    then have aq: "after_thumbnail q" using q(2) by simp
    from Suc.IH[OF _ q(1) aq] Suc.prems(1)
    obtain i where i: "i < k" "steps_of u st0 evs ! i = Some Thumbnail"
      "\<forall>j. i < j \<and> j \<le> k \<longrightarrow> (\<exists>q. steps_of u st0 evs ! j = Some q \<and> after_thumbnail q)"
      by auto
    have "\<forall>j. i < j \<and> j \<le> Suc k \<longrightarrow> (\<exists>q. steps_of u st0 evs ! j = Some q \<and> after_thumbnail q)"
      using i(3) Suc.prems(2,3) by (auto simp: le_Suc_eq)
    then show ?thesis using i(1,2) by (intro exI[where x = i]) simp
  qed
qed

text \<open>
  Claim C3, as amended. Whatever the state and the update, what \<open>userStates\<close> holds for a
  user afterwards follows from what it held before along the table of section 4.2, with
  one addition: a menu entry (\<open>Add Movie\<close>, \<open>Add Web Series\<close>) replaces the sender's session
  by a new one at \<open>title\<close> from any step, not only when the sender has none. And in a run
  from a start with no session, whenever a user is at \<open>movie_links\<close>, \<open>episode_count\<close>,
  \<open>episode_title\<close> or \<open>episode_link\<close>, the user was at \<open>thumbnail\<close> at an earlier point of
  the run and has been at one of these four steps ever since.
\<close>

theorem steps_follow_table:
  assumes "initial st0"
  shows "(\<forall>st e upd st' rs v. handle_update st e upd = Inr (st', rs) \<longrightarrow>
            table (userStates st v) (userStates st' v) \<or>
            (upd = Add_movie v \<or> upd = Add_web_series v) \<and>
            map_option step (userStates st' v) = Some Title) \<and>
         (\<forall>k p. k < length (steps_of u st0 evs) \<and> steps_of u st0 evs ! k = Some p \<and>
                after_thumbnail p \<longrightarrow>
            (\<exists>i<k. steps_of u st0 evs ! i = Some Thumbnail \<and>
               (\<forall>j. i < j \<and> j \<le> k \<longrightarrow>
                  (\<exists>q. steps_of u st0 evs ! j = Some q \<and> after_thumbnail q))))"
  using handle_update_table steps_of_passed_thumbnail[OF assms] by blast


text \<open>
  The movie session of user 7: its steps, the point at \<open>thumbnail\<close> before \<open>movie_links\<close>,
  and the photo taking it from \<open>thumbnail\<close> to \<open>movie_links\<close> along the table.
\<close>

theorem steps_follow_table_witness:
  "steps_of 7 start_state movie_with_one_link
     = [None, Some Title, Some Thumbnail, Some Movie_links, Some Movie_links] \<and>
   (\<exists>i<4. steps_of 7 start_state movie_with_one_link ! i = Some Thumbnail \<and>
      (\<forall>j. i < j \<and> j \<le> 4 \<longrightarrow>
         (\<exists>q. steps_of 7 start_state movie_with_one_link ! j = Some q \<and> after_thumbnail q))) \<and>
   table (userStates (state_after (take 2 movie_with_one_link)) 7)
         (userStates (state_after (take 3 movie_with_one_link)) 7)"
proof -
  have xs: "steps_of 7 start_state movie_with_one_link
     = [None, Some Title, Some Thumbnail, Some Movie_links, Some Movie_links]"
    by (simp add: handler_defs input_defs)
  have h: "handle_update (state_after (take 2 movie_with_one_link)) env_ok (Message 7 photo_message)
     = Inr (state_after (take 3 movie_with_one_link), [Thumbnail_received_send_links])"
    by (simp add: handler_defs input_defs)
  note t = steps_follow_table[OF initial_start_state, of 7 movie_with_one_link]
  from t have "4 < length (steps_of 7 start_state movie_with_one_link) \<and>
      steps_of 7 start_state movie_with_one_link ! 4 = Some Movie_links \<and>
      after_thumbnail Movie_links \<longrightarrow>
      (\<exists>i<4. steps_of 7 start_state movie_with_one_link ! i = Some Thumbnail \<and>
      (\<forall>j. i < j \<and> j \<le> 4 \<longrightarrow>
         (\<exists>q. steps_of 7 start_state movie_with_one_link ! j = Some q \<and> after_thumbnail q)))"
    by blast
  then have b: "\<exists>i<4. steps_of 7 start_state movie_with_one_link ! i = Some Thumbnail \<and>
      (\<forall>j. i < j \<and> j \<le> 4 \<longrightarrow>
         (\<exists>q. steps_of 7 start_state movie_with_one_link ! j = Some q \<and> after_thumbnail q))"
    by (simp add: xs after_thumbnail_def)
  from t h have "table (userStates (state_after (take 2 movie_with_one_link)) 7)
         (userStates (state_after (take 3 movie_with_one_link)) 7)"
    by blast
  then show ?thesis using xs b by simp
qed

text \<open>
  Claim C3 as stated fails: user 7 is at \<open>thumbnail\<close> in a movie session and sends the
  menu text \<open>Add Web Series\<close>. The table lets a session at \<open>thumbnail\<close> stay there or move to
  the step after it; the code puts the user at \<open>title\<close>, in a session of the other type.
\<close>

theorem menu_entry_leaves_the_table:
  "steps_of 7 start_state
     [(env_ok, Add_movie 7), (env_ok, Message 7 (text_message ''Test'')),
      (env_ok, Add_web_series 7)]
     = [None, Some Title, Some Thumbnail, Some Title] \<and>
   \<not> table
       (userStates (state_after
          [(env_ok, Add_movie 7), (env_ok, Message 7 (text_message ''Test''))]) 7)
       (userStates (state_after
          [(env_ok, Add_movie 7), (env_ok, Message 7 (text_message ''Test'')),
           (env_ok, Add_web_series 7)]) 7)"
  by (simp add: handler_defs input_defs table_def)

section \<open>An episode count that is not a number\<close>

lemma js_ge_NaN: "\<not> js_ge a (Some NaN)"
  by (simp add: js_ge_def to_number_def split: jsnum.splits)

lemma nan_loop_message:
  assumes "in_nan_loop st u"
  shows "\<exists>st' rs. on_message st e u m = Inr (st', rs) \<and> contents st' = contents st \<and>
           in_nan_loop st' u"
proof -
  from assms obtain s where s: "userStates st u = Some s" "episodeCount s = Some NaN"
    "step s = Episode_title \<or> step s = Episode_link" by (auto simp: in_nan_loop_def)
  from s(3) show ?thesis
  proof
    assume "step s = Episode_title"
    then show ?thesis using s(1,2) assms
      by (auto simp: on_message_def case_episode_title_def set_state_def in_nan_loop_def)
  next
    assume "step s = Episode_link"
    then show ?thesis using s(1,2) assms
      by (cases "episodes s")
        (auto simp: on_message_def case_episode_link_def set_state_def in_nan_loop_def js_ge_NaN
          push_episode_def new_episodes_def Let_def)
  qed
qed

lemma nan_loop_run:
  "in_nan_loop st u \<Longrightarrow>
   \<exists>st'. run st (messages_of u ems) = Inr st' \<and> contents st' = contents st \<and> in_nan_loop st' u"
proof (induction ems arbitrary: st)
  case Nil
  then show ?case by (simp add: messages_of_def)
next
  case (Cons em ems)
  from nan_loop_message[OF Cons.prems, of "fst em" "snd em"]
  obtain st1 rs where h: "on_message st (fst em) u (snd em) = Inr (st1, rs)"
    "contents st1 = contents st" "in_nan_loop st1 u" by blast
  from Cons.IH[OF h(3)] obtain st' where "run st1 (messages_of u ems) = Inr st'"
    "contents st' = contents st1" "in_nan_loop st' u" by blast
  then show ?case using h(1,2) by (simp add: messages_of_def handle_update_def)
qed

text \<open>
  Claim C9. At \<open>episode_count\<close> a text of white space only (not empty) is accepted: it
  passes the guard, since \<open>Number\<close> of it is 0, and \<open>parseInt\<close> of it is \<open>NaN\<close>, which becomes
  \<open>episodeCount\<close>, with the step \<open>episode_title\<close>. From then on, whatever messages the user
  sends, every one is handled without an exception, none adds a record, and after each
  the session is still there, in the episode loop, with \<open>episodeCount = NaN\<close> and the
  persist condition \<open>currentEpisode >= episodeCount\<close> false.
\<close>

theorem white_space_count_never_persists:
  assumes "userStates st u = Some s" and "step s = Episode_count"
    and "t \<noteq> []" and "list_all is_white_space t"
  shows "\<exists>st1. on_message st e u \<lparr>msg_text = Some t, msg_photo = p\<rparr>
                  = Inr (st1, [Starting_with_episode_1]) \<and>
           (\<exists>s1. userStates st1 u = Some s1 \<and> step s1 = Episode_title \<and>
                 episodeCount s1 = Some NaN) \<and>
           (\<forall>ems. \<exists>st2 s2. run st1 (messages_of u ems) = Inr st2 \<and>
                 contents st2 = contents st \<and> userStates st2 u = Some s2 \<and>
                 episodeCount s2 = Some NaN \<and>
                 (step s2 = Episode_title \<or> step s2 = Episode_link) \<and>
                 \<not> js_ge (currentEpisode s2) (episodeCount s2))"
proof -
  define s1 where "s1 = s\<lparr>episodeCount := Some NaN, currentEpisode := Some (Num 1),
                           step := Episode_title\<rparr>"
  define st1 where "st1 = set_state st u s1"
  have acc: "on_message st e u \<lparr>msg_text = Some t, msg_photo = p\<rparr>
             = Inr (st1, [Starting_with_episode_1])"
    using assms all_white_space[OF assms(3,4)]
    by (simp add: on_message_def case_episode_count_def truthy_def st1_def s1_def)
  have s1: "userStates st1 u = Some s1" "step s1 = Episode_title" "episodeCount s1 = Some NaN"
    "contents st1 = contents st"
    by (simp_all add: st1_def s1_def set_state_def)
  then have loop: "in_nan_loop st1 u" by (simp add: in_nan_loop_def)
  have "\<exists>st2 s2. run st1 (messages_of u ems) = Inr st2 \<and>
                 contents st2 = contents st \<and> userStates st2 u = Some s2 \<and>
                 episodeCount s2 = Some NaN \<and>
                 (step s2 = Episode_title \<or> step s2 = Episode_link) \<and>
                 \<not> js_ge (currentEpisode s2) (episodeCount s2)" for ems
    using nan_loop_run[OF loop, of ems] s1(4) by (auto simp: in_nan_loop_def js_ge_NaN)
  then show ?thesis using acc s1 by blast
qed


text \<open>User 7 answers \<open>episode_count\<close> with one space and then sends two episodes.\<close>

theorem white_space_count_never_persists_witness:
  "\<exists>st2 s2. run (state_after series_before_count)
               (messages_of 7 [(env_ok, text_message '' ''), (env_ok, text_message ''Ep1''),
                  (env_ok, text_message ''linkA''), (env_ok, text_message ''Ep2''),
                  (env_ok, text_message ''linkB'')]) = Inr st2 \<and>
      contents st2 = [] \<and> userStates st2 7 = Some s2 \<and> episodeCount s2 = Some NaN \<and>
      (step s2 = Episode_title \<or> step s2 = Episode_link)"
proof -
  let ?S = "state_after series_before_count"
  let ?ems = "[(env_ok, text_message ''Ep1''), (env_ok, text_message ''linkA''),
               (env_ok, text_message ''Ep2''), (env_ok, text_message ''linkB'')]"
  have sp: "str '' '' \<noteq> []" "list_all is_white_space (str '' '')"
    by (simp_all add: str_def is_white_space_def)
  from white_space_count_never_persists[OF state_series_before_count(1) _ sp, of env_ok None]
  obtain st1 where st1: "on_message ?S env_ok 7 \<lparr>msg_text = Some (str '' ''), msg_photo = None\<rparr>
        = Inr (st1, [Starting_with_episode_1])"
    and all: "\<forall>ems. \<exists>st2 s2. run st1 (messages_of 7 ems) = Inr st2 \<and>
                 contents st2 = contents ?S \<and> userStates st2 7 = Some s2 \<and>
                 episodeCount s2 = Some NaN \<and>
                 (step s2 = Episode_title \<or> step s2 = Episode_link) \<and>
                 \<not> js_ge (currentEpisode s2) (episodeCount s2)"
    by auto
  from all obtain st2 s2 where st2: "run st1 (messages_of 7 ?ems) = Inr st2"
    "contents st2 = contents ?S" "userStates st2 7 = Some s2" "episodeCount s2 = Some NaN"
    "step s2 = Episode_title \<or> step s2 = Episode_link"
    by blast
  have "run ?S (messages_of 7 ((env_ok, text_message '' '') # ?ems)) = Inr st2"
    using st1 st2(1) by (simp add: messages_of_def handle_update_def text_message_def)
  then show ?thesis using st2(2-5) state_series_before_count(3) by auto
qed

section \<open>A save that fails at the last episode\<close>

lemma js_ge_Num:
  "js_ge (Some (Num c)) cnt \<Longrightarrow>
     (\<exists>n. cnt = Some (Num n) \<and> n \<le> c) \<or> cnt = Some Neg_infinity"
  by (cases cnt) (auto simp: js_ge_def to_number_def split: jsnum.splits)

text \<open>
  Claim C10. In a run from a start with no session, let a user be at \<open>episode_link\<close> with
  \<open>currentEpisode >= episodeCount\<close>, so that the next link is the last. If the user sends
  a link and \<open>save\<close> fails, the session is unchanged in \<open>userStates\<close> and nothing is
  persisted, but the episode just built stays in the session's array, pushed before the
  \<open>save\<close>. If the user then sends a link again and \<open>save\<close> succeeds, a second episode with
  the same number is pushed and the record persisted holds both: it has more episodes
  than \<open>episodeCount\<close>, which is an integer below the length of the record's \<open>episodes\<close>
  or, after a count text such as a minus sign and four hundred digits, \<open>-Infinity\<close>.
\<close>

theorem failed_save_keeps_pushed_episode:
  assumes "initial st0" and "run st0 evs = Inr st"
    and "userStates st u = Some s" and "step s = Episode_link"
    and "js_ge (currentEpisode s) (episodeCount s)"
    and "t1 \<noteq> []" and "t2 \<noteq> []" and "\<not> save_ok e1" and "save_ok e2"
  shows "\<exists>a c st1 st2 rs d.
           episodes s = Some a \<and> currentEpisode s = Some (Num c) \<and>
           on_message st e1 u \<lparr>msg_text = Some t1, msg_photo = p1\<rparr>
             = Inr (st1, [Error_saving_series]) \<and>
           userStates st1 u = Some s \<and> contents st1 = contents st \<and>
           episode_arrays st1 a = episode_arrays st a @
             [\<lparr>episodeNumber = Some (Num c), episode_title = currentEpisodeTitle s,
               streamingLink = t1\<rparr>] \<and>
           on_message st1 e2 u \<lparr>msg_text = Some t2, msg_photo = p2\<rparr> = Inr (st2, rs) \<and>
           userStates st2 u = None \<and> contents st2 = contents st @ [d] \<and>
           doc_episodes d = episode_arrays st a @
             [\<lparr>episodeNumber = Some (Num c), episode_title = currentEpisodeTitle s,
               streamingLink = t1\<rparr>,
              \<lparr>episodeNumber = Some (Num c), episode_title = currentEpisodeTitle s,
               streamingLink = t2\<rparr>] \<and>
           ((\<exists>n. episodeCount s = Some (Num n) \<and> n < int (length (doc_episodes d))) \<or>
            episodeCount s = Some Neg_infinity)"
proof -
  have "inv False st" using assms(1,2) by (rule inv_reachable)
  then have ok: "session_ok False st s" using assms(3) by (rule inv_session_ok)
  from episode_link_session[OF ok assms(4)] obtain a where a:
    "episodes s = Some a"
    "counter_ok False True (currentEpisode s) (episodeCount s) (episode_arrays st a)"
    by blast
  from counter_ok_length[OF a(2)] obtain c where c:
    "currentEpisode s = Some (Num c)" "1 \<le> c" "c - 1 \<le> int (length (episode_arrays st a))"
    by blast
  note h = a(1) c(1)
  have n: "(\<exists>n. episodeCount s = Some (Num n) \<and> n \<le> c) \<or> episodeCount s = Some Neg_infinity"
    using assms(5) c(1) js_ge_Num[of c "episodeCount s"] by simp
  define x1 where "x1 = \<lparr>episodeNumber = Some (Num c), episode_title = currentEpisodeTitle s,
                          streamingLink = t1\<rparr>"
  define x2 where "x2 = \<lparr>episodeNumber = Some (Num c), episode_title = currentEpisodeTitle s,
                          streamingLink = t2\<rparr>"
  define st1 where "st1 = push_episode st a x1"
  define d where "d = series_of s (episode_arrays st a @ [x1, x2])"
  define st2 where "st2 = delete_state (save (push_episode st1 a x2) d) u"
  have 1: "on_message st e1 u \<lparr>msg_text = Some t1, msg_photo = p1\<rparr>
             = Inr (st1, [Error_saving_series])"
    using assms(3,4,5,6,8) h(1,2)
    by (simp add: on_message_def case_episode_link_def truthy_def st1_def x1_def Let_def)
  have s1: "userStates st1 u = Some s" "contents st1 = contents st"
    "episode_arrays st1 a = episode_arrays st a @ [x1]"
    using assms(3) by (simp_all add: st1_def push_episode_def)
  have 2: "on_message st1 e2 u \<lparr>msg_text = Some t2, msg_photo = p2\<rparr>
             = Inr (st2, [Series_added (title s) (length (episode_arrays st a @ [x1, x2]))])"
    using s1 assms(4,5,7,9) h(1,2)
    by (simp add: on_message_def case_episode_link_def truthy_def st2_def x2_def d_def Let_def
        push_episode_def)
  have s2: "userStates st2 u = None" "contents st2 = contents st @ [d]"
    "doc_episodes d = episode_arrays st a @ [x1, x2]"
    using s1(2) by (simp_all add: st2_def delete_state_def save_def push_episode_def d_def series_of_def)
  have "(\<exists>n. episodeCount s = Some (Num n) \<and> n < int (length (doc_episodes d))) \<or>
        episodeCount s = Some Neg_infinity"
    using s2(3) c(3) n by auto
  then show ?thesis
    using h(1,2) 1 s1 2 s2 unfolding x1_def x2_def by blast
qed


lemma run_append:
  "run st (xs @ ys) = (case run st xs of Inl err \<Rightarrow> Inl err | Inr st' \<Rightarrow> run st' ys)"
  by (induction xs arbitrary: st) (auto split: sum.splits)

lemma state_series_at_last_link:
  "run start_state series_at_last_link = Inr (state_after series_at_last_link)"
  "userStates (state_after series_at_last_link) 7 =
     Some \<lparr>type = Webseries, step = Episode_link, title = Some (str ''S1''),
           thumbnail = Some (str ''/thumbnails/thumbnail_1.jpg''), streamingLinks = None,
           episodes = Some 0, episodeCount = Some (Num 1), currentEpisode = Some (Num 1),
           currentEpisodeTitle = Some (str ''Ep1'')\<rparr>"
  "episode_arrays (state_after series_at_last_link) 0 = []"
  "contents (state_after series_at_last_link) = []"
  by (simp_all add: handler_defs input_defs number_defs)

text \<open>
  User 7 announces one episode; the first \<open>save\<close> fails, the second succeeds, and the
  record has two episodes, both with number 1.
\<close>

theorem failed_save_keeps_pushed_episode_witness:
  "map_sum id
     (\<lambda>st. map (\<lambda>d. map (\<lambda>x. (episodeNumber x, streamingLink x)) (doc_episodes d)) (contents st))
     (run start_state
        (series_at_last_link @
         [(env_save_fails, Message 7 (text_message ''linkA'')),
          (env_ok, Message 7 (text_message ''linkB''))]))
   = Inr [[(Some (Num 1), str ''linkA''), (Some (Num 1), str ''linkB'')]]"
proof -
  let ?S = "state_after series_at_last_link"
  have e: "\<not> save_ok env_save_fails" "save_ok env_ok" "str ''linkA'' \<noteq> []" "str ''linkB'' \<noteq> []"
    by (simp_all add: env_save_fails_def env_ok_def str_def)
  from failed_save_keeps_pushed_episode[OF initial_start_state state_series_at_last_link(1,2) _ _
      e(3,4,1,2), of None None]
  obtain st1 st2 rs d where h:
    "on_message ?S env_save_fails 7 \<lparr>msg_text = Some (str ''linkA''), msg_photo = None\<rparr>
       = Inr (st1, [Error_saving_series])"
    "on_message st1 env_ok 7 \<lparr>msg_text = Some (str ''linkB''), msg_photo = None\<rparr> = Inr (st2, rs)"
    "contents st2 = contents ?S @ [d]"
    "doc_episodes d = episode_arrays ?S 0 @
       [\<lparr>episodeNumber = Some (Num 1), episode_title = Some (str ''Ep1''),
         streamingLink = str ''linkA''\<rparr>,
        \<lparr>episodeNumber = Some (Num 1), episode_title = Some (str ''Ep1''),
         streamingLink = str ''linkB''\<rparr>]"
    by (auto simp: js_ge_def to_number_def)
  have "run start_state
        (series_at_last_link @
         [(env_save_fails, Message 7 (text_message ''linkA'')),
          (env_ok, Message 7 (text_message ''linkB''))]) = Inr st2"
    using h(1,2) by (simp add: run_append state_series_at_last_link(1) handle_update_def
        text_message_def)
  then show ?thesis using h(3,4) by (simp add: state_series_at_last_link(3,4))
qed

text \<open>
  The count \<open>-Infinity\<close> does occur at the last \<open>episode_link\<close>: user 7 sends a minus sign
  and four hundred nines as the count, then the title of the first episode.
\<close>

lemma neg_infinity_count_is_reachable:
  "\<exists>st s. run start_state
            (series_before_count @
             [(env_ok, Message 7 \<lparr>msg_text = Some (45 # replicate 400 57), msg_photo = None\<rparr>),
              (env_ok, Message 7 (text_message ''Ep1''))]) = Inr st \<and>
          userStates st 7 = Some s \<and> step s = Episode_link \<and>
          currentEpisode s = Some (Num 1) \<and> episodeCount s = Some Neg_infinity \<and>
          js_ge (currentEpisode s) (episodeCount s)"
proof -
  let ?S = "state_after series_before_count"
  have r: "run start_state series_before_count = Inr ?S"
    by (simp add: handler_defs input_defs)
  show ?thesis
    using minus_nines state_series_before_count(1)
    by (simp add: run_append r handle_update_def on_message_def case_episode_count_def
        case_episode_title_def truthy_def set_state_def text_message_def str_def js_ge_def
        to_number_def)
qed

section \<open>Series records\<close>

lemma case_episode_link_record:
  assumes "case_episode_link st e u s m = (st', rs)" and "contents st' \<noteq> contents st"
    and "episodes s = Some a"
  shows "contents st' = contents st @
           [series_of s (episode_arrays st a @
              [\<lparr>episodeNumber = currentEpisode s, episode_title = currentEpisodeTitle s,
                streamingLink = the (msg_text m)\<rparr>])]"
  using assms
  by (auto simp: case_episode_link_def set_state_def delete_state_def save_def push_episode_def
      Let_def split: if_splits)

lemma persist_step:
  assumes "on_message st e u m = Inr (st', rs)" and "contents st' \<noteq> contents st"
    and "userStates st u = Some s"
  shows "step s = Movie_links \<or> step s = Episode_link"
  using assms contents_case_title[of st u s m] contents_case_thumbnail[of st e u s m]
    contents_case_episode_count[of st u s m] contents_case_episode_title[of st u s m]
  by (cases "step s") (auto simp: on_message_def)

text \<open>
  Claim C1, as amended. In a run from a start with no session in which no \<open>save\<close> has
  failed, let a message of a user with a series session whose \<open>episodeCount\<close> is an integer
  \<open>n \<ge> 1\<close> add a record. Then the record is a series, its \<open>episodes\<close> has length \<open>n\<close>, and
  its episode numbers are \<open>1, ..., n\<close> in this order: the loop has pushed one episode for
  each number up to \<open>episodeCount\<close> before the record is persisted.
\<close>

theorem series_record_numbers:
  assumes "initial st0" and "no_save_fails evs" and "run st0 evs = Inr st"
    and "userStates st u = Some s" and "type s = Webseries"
    and "episodeCount s = Some (Num n)" and "1 \<le> n"
    and "handle_update st e (Message u m) = Inr (st', rs)" and "contents st' \<noteq> contents st"
  shows "\<exists>d. contents st' = contents st @ [d] \<and> doc_type d = Webseries \<and>
             map episodeNumber (doc_episodes d) = numbers n \<and>
             int (length (doc_episodes d)) = n"
proof -
  have om: "on_message st e u m = Inr (st', rs)" using assms(8) by (simp add: handle_update_def)
  have "inv True st" using assms(1,2,3) by (rule inv_reachable_strict)
  then have ok: "session_ok True st s" using assms(4) by (rule inv_session_ok)
  have "step s \<noteq> Movie_links" using ok assms(5) by (simp add: session_ok_def)
  then have link: "step s = Episode_link" using persist_step[OF om assms(9,4)] by simp
  from episode_link_session[OF ok link] obtain a where h:
    "episodes s = Some a"
    "counter_ok True True (currentEpisode s) (episodeCount s) (episode_arrays st a)"
    by blast
  have c: "case_episode_link st e u s m = (st', rs)" using om assms(4) link by (simp add: on_message_def)
  have ge: "js_ge (currentEpisode s) (episodeCount s)"
    using case_episode_link_persist[OF c assms(9)] by simp
  define d where "d = series_of s (episode_arrays st a @
              [\<lparr>episodeNumber = currentEpisode s, episode_title = currentEpisodeTitle s,
                streamingLink = the (msg_text m)\<rparr>])"
  have 1: "contents st' = contents st @ [d]"
    using case_episode_link_record[OF c assms(9) h(1)] by (simp add: d_def)
  have 2: "map episodeNumber (doc_episodes d) = numbers n"
    using counter_ok_last[OF h(2) ge assms(6,7), of "\<lparr>episodeNumber = currentEpisode s,
      episode_title = currentEpisodeTitle s, streamingLink = the (msg_text m)\<rparr>"]
    by (simp add: d_def series_of_def)
  have "length (doc_episodes d) = length (numbers n)" using 2 by (metis length_map)
  then have 3: "int (length (doc_episodes d)) = n" using length_numbers[of n] assms(7) by simp
  have "doc_type d = Webseries" using assms(5) by (simp add: d_def series_of_def)
  then show ?thesis using 1 2 3 by blast
qed

lemma numbers_2: "numbers 2 = [Some (Num 1), Some (Num 2)]"
  by (simp add: numbers_def upto_rec1)

lemma state_series_of_two_at_last_link:
  "run start_state series_of_two_at_last_link = Inr (state_after series_of_two_at_last_link)"
  "userStates (state_after series_of_two_at_last_link) 7 =
     Some \<lparr>type = Webseries, step = Episode_link, title = Some (str ''S1''),
           thumbnail = Some (str ''/thumbnails/thumbnail_1.jpg''), streamingLinks = None,
           episodes = Some 0, episodeCount = Some (Num 2), currentEpisode = Some (Num 2),
           currentEpisodeTitle = Some (str ''Ep2'')\<rparr>"
  "contents (state_after series_of_two_at_last_link) = []"
  "no_save_fails series_of_two_at_last_link"
  by (simp_all add: handler_defs input_defs number_defs no_save_fails_def)

text \<open>The second scenario of the specification: one series record, episodes 1 and 2.\<close>

theorem series_record_numbers_witness:
  "map_sum id
     (\<lambda>st. map (\<lambda>d. (doc_type d, map episodeNumber (doc_episodes d))) (contents st))
     (run start_state
        (series_of_two_at_last_link @ [(env_ok, Message 7 (text_message ''linkB''))]))
   = Inr [(Webseries, [Some (Num 1), Some (Num 2)])]"
proof -
  let ?S = "state_after series_of_two_at_last_link"
  let ?S' = "state_after (series_of_two_at_last_link @ [(env_ok, Message 7 (text_message ''linkB''))])"
  have h: "handle_update ?S env_ok (Message 7 (text_message ''linkB''))
           = Inr (?S', [Series_added (Some (str ''S1'')) 2])"
    by (simp add: handler_defs input_defs number_defs)
  have ne: "contents ?S' \<noteq> contents ?S"
    by (simp add: handler_defs input_defs number_defs)
  have r: "run start_state
        (series_of_two_at_last_link @ [(env_ok, Message 7 (text_message ''linkB''))]) = Inr ?S'"
    by (simp add: run_append state_series_of_two_at_last_link(1) h)
  from series_record_numbers[OF initial_start_state state_series_of_two_at_last_link(4,1,2) _ _ _
      h ne, of 2]
  obtain d where "contents ?S' = contents ?S @ [d]" "doc_type d = Webseries"
    "map episodeNumber (doc_episodes d) = numbers 2"
    by auto
  then show ?thesis
    using r by (simp add: state_series_of_two_at_last_link(3) numbers_2)
qed

text \<open>
  Claim C1 as stated fails in two ways. With \<open>episodeCount = 0\<close> the first link is the
  last, and the record has one episode. With \<open>episodeCount = 1\<close> and a \<open>save\<close> that fails
  once, the record has two episodes, both numbered 1.
\<close>

theorem series_record_longer_than_count:
  "map_option episodeCount (userStates (state_after series_of_none_at_link) 7) = Some (Some (Num 0)) \<and>
   map_sum id (\<lambda>st. map (\<lambda>d. map episodeNumber (doc_episodes d)) (contents st))
     (run start_state
        (series_of_none_at_link @ [(env_ok, Message 7 (text_message ''linkA''))]))
   = Inr [[Some (Num 1)]] \<and>
   map_option episodeCount (userStates (state_after series_at_last_link) 7) = Some (Some (Num 1)) \<and>
   map_sum id (\<lambda>st. map (\<lambda>d. map episodeNumber (doc_episodes d)) (contents st))
     (run start_state
        (series_at_last_link @
         [(env_save_fails, Message 7 (text_message ''linkA'')),
          (env_ok, Message 7 (text_message ''linkB''))]))
   = Inr [[Some (Num 1), Some (Num 1)]]"
  by (simp add: handler_defs input_defs number_defs)

section \<open>The episode loop comes to its end\<close>

lemma series_of_cong:
  "type s' = type s \<Longrightarrow> title s' = title s \<Longrightarrow> thumbnail s' = thumbnail s \<Longrightarrow>
   series_of s' eps = series_of s eps"
  by (simp add: series_of_def)

lemma episode_rounds_Cons:
  "episode_rounds u (r # rnds) = episode_round u r @ episode_rounds u rnds"
  by (simp add: episode_rounds_def)

text \<open>One round that is not the last.\<close>

lemma round_next:
  assumes "userStates st u = Some s" "step s = Episode_title" "episodes s = Some a"
    "currentEpisode s = Some (Num c)" "episodeCount s = Some (Num n)" "c < n"
    "fst r \<noteq> []" "snd r \<noteq> []" "1 \<le> c" "n \<le> 2 ^ 53"
  shows "\<exists>st' s'. run st (episode_round u r) = Inr st' \<and> userStates st' u = Some s' \<and>
           step s' = Episode_title \<and> episodes s' = Some a \<and>
           currentEpisode s' = Some (Num (c + 1)) \<and> episodeCount s' = Some (Num n) \<and>
           type s' = type s \<and> title s' = title s \<and> thumbnail s' = thumbnail s \<and>
           contents st' = contents st \<and>
           episode_arrays st' a = episode_arrays st a @ numbered c [r]"
proof -
  have "to_double (c + 1) = Num (c + 1)" using assms(6,9,10) by (simp add: to_double_exact)
  then show ?thesis
    using assms(1-8)
    by (simp add: episode_round_def text_of_def env_ok_def handler_defs)
qed

text \<open>The last round.\<close>

lemma round_last:
  assumes "userStates st u = Some s" "step s = Episode_title" "episodes s = Some a"
    "currentEpisode s = Some (Num c)" "episodeCount s = Some (Num n)" "n \<le> c"
    "fst r \<noteq> []" "snd r \<noteq> []"
  shows "\<exists>st'. run st (episode_round u r) = Inr st' \<and> userStates st' u = None \<and>
           contents st' = contents st @ [series_of s (episode_arrays st a @ numbered c [r])]"
  using assms
  by (simp add: episode_round_def text_of_def env_ok_def handler_defs)

text \<open>
  The loop does persist. Let a user be at \<open>episode_title\<close> with the integer counter
  \<open>c \<ge> 1\<close> not above the integer \<open>episodeCount = n\<close>, itself at most \<open>2^53\<close>, so that every
  \<open>currentEpisode + 1\<close> of the loop is exact. Then \<open>n - c + 1\<close> rounds of title and link, all
  texts non-empty and the \<open>save\<close> succeeding, are handled without an exception; they end
  with the session deleted and one record added, whose episodes are those the array held
  followed by one for each round, numbered from \<open>c\<close> on, with the titles and links in the
  order they were sent.
\<close>

theorem episode_loop_runs_to_the_count:
  assumes "userStates st u = Some s" and "step s = Episode_title" and "episodes s = Some a"
    and "currentEpisode s = Some (Num c)" and "episodeCount s = Some (Num n)" and "c \<le> n"
    and "int (length rnds) = n - c + 1"
    and "\<forall>r\<in>set rnds. fst r \<noteq> [] \<and> snd r \<noteq> []"
    and "1 \<le> c" and "n \<le> 2 ^ 53"
  shows "\<exists>st'. run st (episode_rounds u rnds) = Inr st' \<and> userStates st' u = None \<and>
           contents st' = contents st @ [series_of s (episode_arrays st a @ numbered c rnds)]"
  using assms
proof (induction rnds arbitrary: st s c)
  case Nil
  then show ?case by simp
next
  case (Cons r rnds)
  have ne: "fst r \<noteq> []" "snd r \<noteq> []" using Cons.prems(8) by simp_all
  show ?case
  proof (cases "c < n")
    case True
    from round_next[OF Cons.prems(1-5) True ne Cons.prems(9,10)]
    obtain st1 s1 where h: "run st (episode_round u r) = Inr st1" "userStates st1 u = Some s1"
      "step s1 = Episode_title" "episodes s1 = Some a" "currentEpisode s1 = Some (Num (c + 1))"
      "episodeCount s1 = Some (Num n)" "type s1 = type s" "title s1 = title s"
      "thumbnail s1 = thumbnail s" "contents st1 = contents st"
      "episode_arrays st1 a = episode_arrays st a @ numbered c [r]"
      by blast
    have len: "int (length rnds) = n - (c + 1) + 1" using Cons.prems(7) by simp
    have all: "\<forall>r\<in>set rnds. fst r \<noteq> [] \<and> snd r \<noteq> []" using Cons.prems(8) by simp
    have c1: "1 \<le> c + 1" using Cons.prems(9) by simp
    from Cons.IH[OF h(2-6) _ len all c1 Cons.prems(10)] True
    obtain st' where st': "run st1 (episode_rounds u rnds) = Inr st'" "userStates st' u = None"
      "contents st' = contents st1 @
         [series_of s1 (episode_arrays st1 a @ numbered (c + 1) rnds)]"
      by auto
    have "run st (episode_rounds u (r # rnds)) = Inr st'"
      using h(1) st'(1) by (simp add: episode_rounds_Cons run_append)
    moreover have "contents st' = contents st @
        [series_of s (episode_arrays st a @ numbered c (r # rnds))]"
      using st'(3) h(7-11) by (simp add: series_of_cong[OF h(7-9)])
    ultimately show ?thesis using st'(2) by blast
  next
    case False
    then have cn: "n \<le> c" by simp
    then have "rnds = []" using Cons.prems(6,7) by simp
    then show ?thesis
      using round_last[OF Cons.prems(1-5) cn ne] by (simp add: episode_rounds_def)
  qed
qed


text \<open>
  The second scenario of the specification, in full: two rounds after the count \<open>2\<close> give
  one series record with the episodes 1 and 2, titles and links in order.
\<close>

theorem episode_loop_runs_to_the_count_witness:
  "map_sum id contents
     (run start_state
        (series_before_count @ [(env_ok, Message 7 (text_message ''2''))] @
         episode_rounds 7 [(str ''Ep1'', str ''linkA''), (str ''Ep2'', str ''linkB'')]))
   = Inr [\<lparr>doc_type = Webseries, doc_title = Some (str ''S1''),
           doc_thumbnail = Some (str ''/thumbnails/thumbnail_1.jpg''),
           doc_streamingLinks = [],
           doc_episodes =
             [\<lparr>episodeNumber = Some (Num 1), episode_title = Some (str ''Ep1''),
               streamingLink = str ''linkA''\<rparr>,
              \<lparr>episodeNumber = Some (Num 2), episode_title = Some (str ''Ep2''),
               streamingLink = str ''linkB''\<rparr>]\<rparr>]"
proof -
  let ?evs = "series_before_count @ [(env_ok, Message 7 (text_message ''2''))]"
  let ?S = "state_after ?evs"
  let ?s = "\<lparr>type = Webseries, step = Episode_title, title = Some (str ''S1''),
           thumbnail = Some (str ''/thumbnails/thumbnail_1.jpg''), streamingLinks = None,
           episodes = Some 0, episodeCount = Some (Num 2), currentEpisode = Some (Num 1),
           currentEpisodeTitle = None\<rparr>"
  let ?rnds = "[(str ''Ep1'', str ''linkA''), (str ''Ep2'', str ''linkB'')]"
  have S: "run start_state ?evs = Inr ?S" "userStates ?S 7 = Some ?s"
    "episode_arrays ?S 0 = []" "contents ?S = []"
    by (simp_all add: handler_defs input_defs number_defs)
  have ne: "\<forall>r\<in>set ?rnds. fst r \<noteq> [] \<and> snd r \<noteq> []" by (simp add: str_def)
  from episode_loop_runs_to_the_count[OF S(2) _ _ _ _ _ _ ne, of 0 1 2]
  obtain st' where "run ?S (episode_rounds 7 ?rnds) = Inr st'"
    "contents st' = contents ?S @ [series_of ?s (episode_arrays ?S 0 @ numbered 1 ?rnds)]"
    by auto
  note st' = this
  have "run start_state (?evs @ episode_rounds 7 ?rnds) = run ?S (episode_rounds 7 ?rnds)"
    by (simp only: run_append[of start_state ?evs] S(1) sum.case)
  then have "map_sum id contents (run start_state (?evs @ episode_rounds 7 ?rnds))
             = Inr [series_of ?s (numbered 1 ?rnds)]"
    using st' S(3,4) by simp
  then have "map_sum id contents
     (run start_state
        (series_before_count @ [(env_ok, Message 7 (text_message ''2''))] @
         episode_rounds 7 ?rnds)) = Inr [series_of ?s (numbered 1 ?rnds)]"
    by (simp only: append_assoc)
  then show ?thesis by (simp add: series_of_def)
qed

text \<open>
  The first scenario of the specification: \<open>Add Movie\<close>, the title \<open>Test\<close>, a photo, the
  link \<open>http://a\<close> and \<open>/done\<close> give one movie record with that one link.
\<close>

theorem first_scenario_persists_the_movie:
  "map_sum id contents
     (run start_state (movie_with_one_link @ [(env_ok, Message 7 (text_message ''/done''))]))
   = Inr [a_movie]"
  by (simp add: handler_defs input_defs a_movie_def)

end
